theory Spec2Isabelle
  imports Main
begin

section \<open>JavaScript strings\<close>

text \<open>
  A JavaScript string is a sequence of UTF-16 code units. The chat client receives text
  from the network and from the input field, so code units beyond Latin-1 occur; a code
  unit is modelled as a natural number and a string as a list of them. \<open>js\<close> writes
  an ASCII literal of the source as such a list.
\<close>

type_synonym jstring = "nat list"

definition js :: "string \<Rightarrow> jstring" where
  "js s = map of_char s"

text \<open>
  \<^verbatim>\<open>String.prototype.trim\<close> removes WhiteSpace and LineTerminator code units
  (ECMA-262) from both ends.
\<close>

definition isWhiteSpace :: "nat \<Rightarrow> bool" where
  "isWhiteSpace c \<longleftrightarrow>
     c = 9 \<or> c = 10 \<or> c = 11 \<or> c = 12 \<or> c = 13 \<or> c = 32 \<or> c = 160 \<or> c = 5760 \<or>
     (8192 \<le> c \<and> c \<le> 8202) \<or> c = 8232 \<or> c = 8233 \<or> c = 8239 \<or> c = 8287 \<or>
     c = 12288 \<or> c = 65279"

definition trim :: "jstring \<Rightarrow> jstring" where
  "trim s = rev (dropWhile isWhiteSpace (rev (dropWhile isWhiteSpace s)))"

definition startsWith :: "jstring \<Rightarrow> jstring \<Rightarrow> bool" where
  "startsWith s p \<longleftrightarrow> take (length p) s = p"

definition substring :: "jstring \<Rightarrow> nat \<Rightarrow> jstring" where
  "substring s n = drop n s"

text \<open>
  \<^verbatim>\<open>chunk.split('\n\n')\<close>: the text is cut at every occurrence of two line feeds,
  found from left to right without overlap; the pieces between the cuts are returned, the
  empty ones included. \<open>split_from cur s\<close> scans \<open>s\<close> with \<open>cur\<close> the piece read so far.
\<close>

fun split_from :: "jstring \<Rightarrow> jstring \<Rightarrow> jstring list" where
  "split_from cur [] = [cur]"
| "split_from cur [c] = [cur @ [c]]"
| "split_from cur (c # d # s) =
     (if c = 10 \<and> d = 10 then cur # split_from [] s else split_from (cur @ [c]) (d # s))"

definition split_chunk :: "jstring \<Rightarrow> jstring list" where
  "split_chunk chunk = split_from [] chunk"

section \<open>JSON.parse\<close>

text \<open>
  The platform's \<^verbatim>\<open>JSON.parse\<close>, following the JSON grammar of ECMA-404: a pushdown
  recogniser that reads one code unit at a time and builds the value. A number is kept as
  the text of its literal: its conversion to a double is outside this development.
  The members of an object are kept in the order of the text; a later member with the
  same key overrides an earlier one when the object is read (\<open>obj_lookup\<close>).
\<close>

datatype json =
    JNull
  | JBool bool
  | JNum jstring
  | JStr jstring
  | JArr "json list"
  | JObj "(jstring \<times> json) list"

datatype frame =
    FArr "json list"
  | FObj "(jstring \<times> json) list" jstring

datatype numst = NMinus | NZero | NInt | NDot | NFrac | NExp | NSign | NExpD

datatype mode =
    MValue
  | MValueOrEnd
  | MKeyOrEnd
  | MKey
  | MColon
  | MAfter
  | MDone json
  | MStr bool jstring
  | MEsc bool jstring
  | MHex bool jstring "nat list"
  | MLit jstring json
  | MNum numst jstring

type_synonym pstate = "mode \<times> frame list"

definition json_ws :: "nat \<Rightarrow> bool" where
  "json_ws c \<longleftrightarrow> c = 32 \<or> c = 9 \<or> c = 10 \<or> c = 13"

definition is_digit :: "nat \<Rightarrow> bool" where
  "is_digit c \<longleftrightarrow> 48 \<le> c \<and> c \<le> 57"

definition hexval :: "nat \<Rightarrow> nat option" where
  "hexval c =
     (if 48 \<le> c \<and> c \<le> 57 then Some (c - 48)
      else if 65 \<le> c \<and> c \<le> 70 then Some (c - 55)
      else if 97 \<le> c \<and> c \<le> 102 then Some (c - 87)
      else None)"

text \<open>A finished value goes into the enclosing array or object, or is the result.\<close>

fun push_value :: "json \<Rightarrow> frame list \<Rightarrow> pstate" where
  "push_value v [] = (MDone v, [])"
| "push_value v (FArr xs # st) = (MAfter, FArr (xs @ [v]) # st)"
| "push_value v (FObj ms k # st) = (MAfter, FObj (ms @ [(k, v)]) [] # st)"

definition start_value :: "frame list \<Rightarrow> nat \<Rightarrow> pstate option" where
  "start_value st c =
     (if c = 123 then Some (MKeyOrEnd, FObj [] [] # st)
      else if c = 91 then Some (MValueOrEnd, FArr [] # st)
      else if c = 34 then Some (MStr False [], st)
      else if c = 45 then Some (MNum NMinus [c], st)
      else if c = 48 then Some (MNum NZero [c], st)
      else if 49 \<le> c \<and> c \<le> 57 then Some (MNum NInt [c], st)
      else if c = 116 then Some (MLit (js ''rue'') (JBool True), st)
      else if c = 102 then Some (MLit (js ''alse'') (JBool False), st)
      else if c = 110 then Some (MLit (js ''ull'') JNull, st)
      else None)"

text \<open>After a value inside a container: a comma or the closing bracket.\<close>

fun after_step :: "frame list \<Rightarrow> nat \<Rightarrow> pstate option" where
  "after_step [] c = None"
| "after_step (FArr xs # st) c =
     (if json_ws c then Some (MAfter, FArr xs # st)
      else if c = 44 then Some (MValue, FArr xs # st)
      else if c = 93 then Some (push_value (JArr xs) st)
      else None)"
| "after_step (FObj ms k # st) c =
     (if json_ws c then Some (MAfter, FObj ms k # st)
      else if c = 44 then Some (MKey, FObj ms k # st)
      else if c = 125 then Some (push_value (JObj ms) st)
      else None)"

text \<open>After the top-level value only white space may follow.\<close>

definition done_step :: "json \<Rightarrow> nat \<Rightarrow> pstate option" where
  "done_step v c = (if json_ws c then Some (MDone v, []) else None)"

text \<open>A number literal ends at the first code unit that cannot continue it.\<close>

definition num_finish :: "jstring \<Rightarrow> frame list \<Rightarrow> nat \<Rightarrow> pstate option" where
  "num_finish t st c =
     (case st of [] \<Rightarrow> done_step (JNum t) c
      | _ # _ \<Rightarrow> after_step (snd (push_value (JNum t) st)) c)"

fun num_step :: "numst \<Rightarrow> jstring \<Rightarrow> frame list \<Rightarrow> nat \<Rightarrow> pstate option" where
  "num_step NMinus t st c =
     (if c = 48 then Some (MNum NZero (t @ [c]), st)
      else if 49 \<le> c \<and> c \<le> 57 then Some (MNum NInt (t @ [c]), st)
      else None)"
| "num_step NZero t st c =
     (if c = 46 then Some (MNum NDot (t @ [c]), st)
      else if c = 101 \<or> c = 69 then Some (MNum NExp (t @ [c]), st)
      else num_finish t st c)"
| "num_step NInt t st c =
     (if is_digit c then Some (MNum NInt (t @ [c]), st)
      else if c = 46 then Some (MNum NDot (t @ [c]), st)
      else if c = 101 \<or> c = 69 then Some (MNum NExp (t @ [c]), st)
      else num_finish t st c)"
| "num_step NDot t st c =
     (if is_digit c then Some (MNum NFrac (t @ [c]), st) else None)"
| "num_step NFrac t st c =
     (if is_digit c then Some (MNum NFrac (t @ [c]), st)
      else if c = 101 \<or> c = 69 then Some (MNum NExp (t @ [c]), st)
      else num_finish t st c)"
| "num_step NExp t st c =
     (if c = 43 \<or> c = 45 then Some (MNum NSign (t @ [c]), st)
      else if is_digit c then Some (MNum NExpD (t @ [c]), st)
      else None)"
| "num_step NSign t st c =
     (if is_digit c then Some (MNum NExpD (t @ [c]), st) else None)"
| "num_step NExpD t st c =
     (if is_digit c then Some (MNum NExpD (t @ [c]), st)
      else num_finish t st c)"

text \<open>The closing quote of a string: a key is stored in its object, a value is pushed.\<close>

definition close_string :: "bool \<Rightarrow> jstring \<Rightarrow> frame list \<Rightarrow> pstate option" where
  "close_string is_key s st =
     (if is_key then
        (case st of FObj ms k # st' \<Rightarrow> Some (MColon, FObj ms s # st') | _ \<Rightarrow> None)
      else Some (push_value (JStr s) st))"

definition escape_char :: "nat \<Rightarrow> nat option" where
  "escape_char c =
     (if c = 34 then Some 34
      else if c = 92 then Some 92
      else if c = 47 then Some 47
      else if c = 98 then Some 8
      else if c = 102 then Some 12
      else if c = 110 then Some 10
      else if c = 114 then Some 13
      else if c = 116 then Some 9
      else None)"

fun step :: "pstate \<Rightarrow> nat \<Rightarrow> pstate option" where
  "step (MValue, st) c = (if json_ws c then Some (MValue, st) else start_value st c)"
| "step (MValueOrEnd, st) c =
     (if json_ws c then Some (MValueOrEnd, st)
      else if c = 93 then
        (case st of FArr xs # st' \<Rightarrow> Some (push_value (JArr xs) st') | _ \<Rightarrow> None)
      else start_value st c)"
| "step (MKeyOrEnd, st) c =
     (if json_ws c then Some (MKeyOrEnd, st)
      else if c = 125 then
        (case st of FObj ms k # st' \<Rightarrow> Some (push_value (JObj ms) st') | _ \<Rightarrow> None)
      else if c = 34 then Some (MStr True [], st)
      else None)"
| "step (MKey, st) c =
     (if json_ws c then Some (MKey, st)
      else if c = 34 then Some (MStr True [], st)
      else None)"
| "step (MColon, st) c =
     (if json_ws c then Some (MColon, st)
      else if c = 58 then Some (MValue, st)
      else None)"
| "step (MAfter, st) c = after_step st c"
| "step (MDone v, st) c = done_step v c"
| "step (MStr k s, st) c =
     (if c = 34 then close_string k s st
      else if c = 92 then Some (MEsc k s, st)
      else if c < 32 then None
      else Some (MStr k (s @ [c]), st))"
| "step (MEsc k s, st) c =
     (if c = 117 then Some (MHex k s [], st)
      else (case escape_char c of None \<Rightarrow> None | Some e \<Rightarrow> Some (MStr k (s @ [e]), st)))"
| "step (MHex k s ds, st) c =
     (case hexval c of None \<Rightarrow> None
      | Some d \<Rightarrow>
          (case ds of
             [d1, d2, d3] \<Rightarrow> Some (MStr k (s @ [((d1 * 16 + d2) * 16 + d3) * 16 + d]), st)
           | _ \<Rightarrow> Some (MHex k s (ds @ [d]), st)))"
| "step (MLit r v, st) c =
     (case r of [] \<Rightarrow> None
      | x # r' \<Rightarrow>
          (if c \<noteq> x then None
           else if r' = [] then Some (push_value v st)
           else Some (MLit r' v, st)))"
| "step (MNum n t, st) c = num_step n t st c"

fun run :: "pstate \<Rightarrow> jstring \<Rightarrow> pstate option" where
  "run p [] = Some p"
| "run p (c # cs) = (case step p c of None \<Rightarrow> None | Some p' \<Rightarrow> run p' cs)"

text \<open>At the end of the text the value must be complete.\<close>

fun finish :: "pstate \<Rightarrow> json option" where
  "finish (MDone v, st) = Some v"
| "finish (MNum n t, st) =
     (if st = [] \<and> (n = NZero \<or> n = NInt \<or> n = NFrac \<or> n = NExpD) then Some (JNum t)
      else None)"
| "finish (m, st) = None"

text \<open>\<open>None\<close> is the SyntaxError that \<^verbatim>\<open>JSON.parse\<close> throws.\<close>

definition JSON_parse :: "jstring \<Rightarrow> json option" where
  "JSON_parse s = (case run (MValue, []) s of None \<Rightarrow> None | Some p \<Rightarrow> finish p)"

section \<open>Reading the delta fragment of a stream record\<close>

datatype error = TypeError | HttpError nat | NetworkError

text \<open>
  A JavaScript value read out of the parsed record is a JSON value or \<^verbatim>\<open>undefined\<close>
  (\<open>None\<close>). The property names the client reads (\<^verbatim>\<open>choices\<close>, \<^verbatim>\<open>delta\<close>,
  \<^verbatim>\<open>content\<close>) are defined on no built-in prototype, so only an object can have them.
\<close>

definition obj_lookup :: "(jstring \<times> json) list \<Rightarrow> jstring \<Rightarrow> json option" where
  "obj_lookup ms k = map_of (rev ms) k"

text \<open>\<^verbatim>\<open>x.k\<close>: a TypeError on \<^verbatim>\<open>null\<close>.\<close>

fun get_member :: "json \<Rightarrow> jstring \<Rightarrow> error + json option" where
  "get_member JNull k = Inl TypeError"
| "get_member (JObj ms) k = Inr (obj_lookup ms k)"
| "get_member v k = Inr None"

text \<open>\<^verbatim>\<open>x[0]\<close>: the first element of an array, the first code unit of a string.\<close>

fun get_index0 :: "json \<Rightarrow> error + json option" where
  "get_index0 JNull = Inl TypeError"
| "get_index0 (JObj ms) = Inr (obj_lookup ms (js ''0''))"
| "get_index0 (JArr []) = Inr None"
| "get_index0 (JArr (x # xs)) = Inr (Some x)"
| "get_index0 (JStr []) = Inr None"
| "get_index0 (JStr (c # s)) = Inr (Some (JStr [c]))"
| "get_index0 v = Inr None"

text \<open>\<^verbatim>\<open>x?.k\<close>: \<^verbatim>\<open>undefined\<close> when \<^verbatim>\<open>x\<close> is \<^verbatim>\<open>undefined\<close> or \<^verbatim>\<open>null\<close>.\<close>

fun opt_member :: "json option \<Rightarrow> jstring \<Rightarrow> json option" where
  "opt_member None k = None"
| "opt_member (Some (JObj ms)) k = obj_lookup ms k"
| "opt_member (Some v) k = None"

text \<open>\<^verbatim>\<open>data.choices[0]?.delta?.content\<close> (chat.js, line 113).\<close>

definition delta_content :: "json \<Rightarrow> error + json option" where
  "delta_content data =
     (case get_member data (js ''choices'') of
        Inl e \<Rightarrow> Inl e
      | Inr None \<Rightarrow> Inl TypeError
      | Inr (Some choices) \<Rightarrow>
          (case get_index0 choices of
             Inl e \<Rightarrow> Inl e
           | Inr first \<Rightarrow> Inr (opt_member (opt_member first (js ''delta'')) (js ''content''))))"

section \<open>The page and the libraries\<close>

text \<open>
  A rendered message holds \<^verbatim>\<open>pre\<close> elements; the children of one are its
  \<^verbatim>\<open>code\<close> elements and what the finalization pass appends. A code element
  is kept together with the number of calls of \<^verbatim>\<open>hljs.highlightElement\<close> made on it
  so far; the page has no such counter, it is there to state how often an element is
  highlighted.
\<close>

record code_elem =
  className :: jstring
  innerHTML :: jstring
  highlighted :: bool

datatype pre_child =
    Code code_elem nat
  | LangIndicator jstring
  | CopyButton jstring
  | OtherNode jstring

type_synonym pre_elem = "pre_child list"

text \<open>
  What the client calls and does not define: \<^verbatim>\<open>marked.parse\<close> (of its output, the
  \<^verbatim>\<open>pre\<close> elements matter here; it is taken to return for every text),
  \<^verbatim>\<open>hljs.highlightElement\<close>, and the double-precision ToBoolean and ToString of a
  number literal.
\<close>

record platform =
  marked_parse :: "jstring \<Rightarrow> pre_elem list"
  highlightElement :: "code_elem \<Rightarrow> code_elem"
  number_truthy :: "jstring \<Rightarrow> bool"
  number_toString :: "jstring \<Rightarrow> jstring"

fun truthy :: "platform \<Rightarrow> json option \<Rightarrow> bool" where
  "truthy L None = False"
| "truthy L (Some JNull) = False"
| "truthy L (Some (JBool b)) = b"
| "truthy L (Some (JNum t)) = number_truthy L t"
| "truthy L (Some (JStr s)) = (s \<noteq> [])"
| "truthy L (Some (JArr xs)) = True"
| "truthy L (Some (JObj ms)) = True"

fun join_comma :: "jstring list \<Rightarrow> jstring" where
  "join_comma [] = []"
| "join_comma [x] = x"
| "join_comma (x # y # zs) = x @ [44] @ join_comma (y # zs)"

text \<open>The first error of a list of results, or all the values.\<close>

fun collect :: "(error + 'a) list \<Rightarrow> error + 'a list" where
  "collect [] = Inr []"
| "collect (Inl e # rs) = Inl e"
| "collect (Inr x # rs) = (case collect rs of Inl e \<Rightarrow> Inl e | Inr xs \<Rightarrow> Inr (x # xs))"

text \<open>An object read from JSON has the members of its text as own properties.\<close>

definition has_own :: "(jstring \<times> json) list \<Rightarrow> jstring \<Rightarrow> bool" where
  "has_own ms k \<longleftrightarrow> k \<in> set (map fst ms)"

text \<open>
  The conversion to a string that \<^verbatim>\<open>fullResponse += token\<close> applies. An array is
  joined with commas, \<^verbatim>\<open>null\<close> elements giving the empty string. An object is
  converted by its \<^verbatim>\<open>toString\<close>: the inherited one gives \<^verbatim>\<open>[object Object]\<close>;
  an own member of that name, which in JSON is never a function, hides it, and since
  \<^verbatim>\<open>valueOf\<close> gives no primitive either the conversion throws a TypeError.
\<close>

fun to_string :: "platform \<Rightarrow> json \<Rightarrow> error + jstring" where
  "to_string L JNull = Inr (js ''null'')"
| "to_string L (JBool b) = Inr (if b then js ''true'' else js ''false'')"
| "to_string L (JNum t) = Inr (number_toString L t)"
| "to_string L (JStr s) = Inr s"
| "to_string L (JArr xs) =
     (case collect (map (\<lambda>x. if x = JNull then Inr [] else to_string L x) xs) of
        Inl e \<Rightarrow> Inl e
      | Inr ss \<Rightarrow> Inr (join_comma ss))"
| "to_string L (JObj ms) =
     (if has_own ms (js ''toString'') then Inl TypeError else Inr (js ''[object Object]''))"

text \<open>\<^verbatim>\<open>x || ''\<close>\<close>

definition or_empty :: "platform \<Rightarrow> json option \<Rightarrow> json" where
  "or_empty L r = (case r of None \<Rightarrow> JStr [] | Some v \<Rightarrow> if truthy L (Some v) then v else JStr [])"

record message =
  content :: jstring
  role :: jstring
  timestamp :: nat

datatype inner_html = Marked jstring | Literal jstring

record content_elem =
  inner :: inner_html
  pres :: "pre_elem list"

record msg_elem =
  el_class :: jstring
  avatar :: jstring
  message_content :: content_elem

datatype log_entry = StreamParseError | SendError

text \<open>
  The fields of \<^verbatim>\<open>ChatApp\<close> and of the page elements it holds. \<open>console\<close> collects
  the calls of \<^verbatim>\<open>console.error\<close>, \<open>now\<close> is the clock \<^verbatim>\<open>new Date()\<close> reads.
  Scrolling is not modelled.
\<close>

record chat_app =
  messages :: "message list"
  isTyping :: bool
  chatMessages :: "msg_elem list"
  messageInput_value :: jstring
  messageInput_height :: jstring
  sendButton_disabled :: bool
  typingIndicator_display :: jstring
  lmStudioUrl_value :: jstring
  modelName_value :: jstring
  console :: "log_entry list"
  now :: nat

section \<open>The operations of ChatApp\<close>

subsection \<open>highlightCodeBlocks\<close>

fun is_code :: "pre_child \<Rightarrow> bool" where
  "is_code (Code c n) = True"
| "is_code x = False"

fun is_copy_button :: "pre_child \<Rightarrow> bool" where
  "is_copy_button (CopyButton t) = True"
| "is_copy_button x = False"

text \<open>\<^verbatim>\<open>s.replace(pat, '')\<close>: the first occurrence of \<open>pat\<close> is removed.\<close>

fun remove_first :: "jstring \<Rightarrow> jstring \<Rightarrow> jstring" where
  "remove_first pat [] = []"
| "remove_first pat (c # cs) =
     (if startsWith (c # cs) pat then drop (length pat) (c # cs)
      else c # remove_first pat cs)"

text \<open>\<^verbatim>\<open>codeBlock.className.split(' ')[0].replace('language-', '')\<close>\<close>

definition lang_of :: "code_elem \<Rightarrow> jstring" where
  "lang_of c = remove_first (js ''language-'') (takeWhile (\<lambda>x. x \<noteq> 32) (className c))"

text \<open>
  The body of the \<^verbatim>\<open>forEach\<close> for the code element at position \<open>i\<close> of its parent:
  the element is highlighted; then, unless the parent already has a copy button, a
  language indicator and a copy button are appended to the parent.
\<close>

definition visit_code :: "platform \<Rightarrow> nat \<Rightarrow> pre_elem \<Rightarrow> pre_elem" where
  "visit_code L i p =
     (if i < length p then
        (case p ! i of
           Code c n \<Rightarrow>
             (let c' = highlightElement L c; p' = p[i := Code c' (Suc n)]
              in if list_ex is_copy_button p' then p'
                 else p' @ [LangIndicator (lang_of c'), CopyButton (js ''Copy'')])
         | _ \<Rightarrow> p)
      else p)"

definition code_positions :: "pre_elem \<Rightarrow> nat list" where
  "code_positions p = filter (\<lambda>i. is_code (p ! i)) [0..<length p]"

text \<open>
  \<^verbatim>\<open>querySelectorAll('pre code')\<close> is a static list, taken before the loop; an
  iteration changes only the parent of its own code element.
\<close>

definition highlight_pre :: "platform \<Rightarrow> pre_elem \<Rightarrow> pre_elem" where
  "highlight_pre L p = foldl (\<lambda>q i. visit_code L i q) p (code_positions p)"

definition highlightCodeBlocks :: "platform \<Rightarrow> content_elem \<Rightarrow> content_elem" where
  "highlightCodeBlocks L container = container\<lparr>pres := map (highlight_pre L) (pres container)\<rparr>"

definition highlight_at :: "platform \<Rightarrow> nat \<Rightarrow> chat_app \<Rightarrow> chat_app" where
  "highlight_at L el s =
     (if el < length (chatMessages s) then
        s\<lparr>chatMessages := (chatMessages s)
             [el := (chatMessages s ! el)
                \<lparr>message_content :=
                   highlightCodeBlocks L (message_content (chatMessages s ! el))\<rparr>]\<rparr>
      else s)"

text \<open>
  For the statements about the pass: what one run does to a child, the first code element
  of a parent, what one run appends to a parent, the number of copy buttons, the counters
  of a container in document order, and a child as it is shown.
\<close>

fun hl_child :: "platform \<Rightarrow> pre_child \<Rightarrow> pre_child" where
  "hl_child L (Code c n) = Code (highlightElement L c) (Suc n)"
| "hl_child L x = x"

fun first_code :: "pre_elem \<Rightarrow> code_elem option" where
  "first_code [] = None"
| "first_code (Code c n # p) = Some c"
| "first_code (x # p) = first_code p"

definition attached :: "platform \<Rightarrow> pre_elem \<Rightarrow> pre_elem" where
  "attached L p =
     (if list_ex is_copy_button p then []
      else (case first_code p of
              None \<Rightarrow> []
            | Some c \<Rightarrow> [LangIndicator (lang_of (highlightElement L c)), CopyButton (js ''Copy'')]))"

definition copy_buttons :: "pre_elem \<Rightarrow> nat" where
  "copy_buttons p = length (filter is_copy_button p)"

fun calls_of :: "pre_child \<Rightarrow> nat list" where
  "calls_of (Code c n) = [n]"
| "calls_of x = []"

definition highlight_calls :: "content_elem \<Rightarrow> nat list" where
  "highlight_calls container = concat (map (\<lambda>p. concat (map calls_of p)) (pres container))"

fun shown :: "pre_child \<Rightarrow> pre_child" where
  "shown (Code c n) = Code c 0"
| "shown x = x"

text \<open>What has been appended once the code elements before position \<open>k\<close> are visited.\<close>

definition appended_upto :: "platform \<Rightarrow> pre_elem \<Rightarrow> nat \<Rightarrow> pre_elem" where
  "appended_upto L p k = (if list_ex is_copy_button p then [] else attached L (take k p))"

definition at_most_one_button :: "content_elem \<Rightarrow> bool" where
  "at_most_one_button container = list_all (\<lambda>p. copy_buttons p \<le> 1) (pres container)"

definition js_block :: content_elem where
  "js_block =
     \<lparr>inner = Marked (js ''code''),
      pres = [[Code \<lparr>className = js ''language-js'', innerHTML = js ''let x'', highlighted = False\<rparr> 0]]\<rparr>"

subsection \<open>The conversation log and the view\<close>

text \<open>
  \<open>addMessage\<close> returns the new state and the position, among the children of
  \<^verbatim>\<open>chatMessages\<close>, of the content element it created.
\<close>

definition addMessage :: "platform \<Rightarrow> jstring \<Rightarrow> jstring \<Rightarrow> bool \<Rightarrow> chat_app \<Rightarrow> chat_app \<times> nat" where
  "addMessage L c r addToHistory s =
     (let s1 = (if addToHistory
                then s\<lparr>messages := messages s @ [\<lparr>content = c, role = r, timestamp = now s\<rparr>]\<rparr>
                else s);
          el = length (chatMessages s1);
          messageElement =
            \<lparr>el_class = js ''message '' @ r,
             avatar = (if r = js ''user'' then js ''U'' else js ''AI''),
             message_content = \<lparr>inner = Marked c, pres = marked_parse L c\<rparr>\<rparr>;
          s2 = s1\<lparr>chatMessages := chatMessages s1 @ [messageElement]\<rparr>
      in (if r = js ''assistant'' then highlight_at L el s2 else s2, el))"

definition showTypingIndicator :: "chat_app \<Rightarrow> chat_app" where
  "showTypingIndicator s =
     s\<lparr>isTyping := True, sendButton_disabled := True, typingIndicator_display := js ''block''\<rparr>"

definition hideTypingIndicator :: "chat_app \<Rightarrow> chat_app" where
  "hideTypingIndicator s =
     s\<lparr>isTyping := False, sendButton_disabled := False, typingIndicator_display := js ''none''\<rparr>"

definition greeting :: msg_elem where
  "greeting =
     \<lparr>el_class = js ''message assistant'',
      avatar = js ''AI'',
      message_content =
        \<lparr>inner = Literal (js ''Hello! I'' @ [39] @ js ''m Jarvis, powered by LM Studio. How can I help you today?''),
         pres = []\<rparr>\<rparr>"

definition clearChat :: "chat_app \<Rightarrow> chat_app" where
  "clearChat s = s\<lparr>messages := [], chatMessages := [greeting]\<rparr>"

text \<open>The constructor, on the page as loaded: an empty log, nothing in flight.\<close>

definition ChatApp :: "chat_app \<Rightarrow> chat_app" where
  "ChatApp page = page\<lparr>messages := [], isTyping := False\<rparr>"

text \<open>
  The log as a request reads it:
  \<^verbatim>\<open>this.messages.map(msg => ({ role: msg.role, content: msg.content }))\<close>.
\<close>

definition snapshot :: "chat_app \<Rightarrow> (jstring \<times> jstring) list" where
  "snapshot s = map (\<lambda>msg. (role msg, content msg)) (messages s)"

record request =
  req_url :: jstring
  req_model :: jstring
  req_messages :: "(jstring \<times> jstring) list"
  req_temperature :: jstring
  req_max_tokens :: nat
  req_stream :: bool

definition system_prompt :: jstring where
  "system_prompt =
     js ''You are Jarvis, a helpful AI assistant. Be concise, friendly, and helpful in your responses.''"

definition requestBody :: "chat_app \<Rightarrow> request" where
  "requestBody s =
     \<lparr>req_url = (if lmStudioUrl_value s = [] then js ''http://localhost:1234'' else lmStudioUrl_value s)
                 @ js ''/v1/chat/completions'',
      req_model = (if modelName_value s = [] then js ''default'' else modelName_value s),
      req_messages = (js ''system'', system_prompt) # snapshot s,
      req_temperature = js ''0.7'',
      req_max_tokens = 1000,
      req_stream = True\<rparr>"

subsection \<open>The stream loop\<close>

datatype flow = Break | Next

text \<open>\<^verbatim>\<open>assistantMessageContent.innerHTML = marked.parse(fullResponse)\<close>\<close>

definition render :: "platform \<Rightarrow> nat \<Rightarrow> jstring \<Rightarrow> chat_app \<Rightarrow> chat_app" where
  "render L el full s =
     (if el < length (chatMessages s) then
        s\<lparr>chatMessages := (chatMessages s)
             [el := (chatMessages s ! el)
                \<lparr>message_content := \<lparr>inner = Marked full, pres = marked_parse L full\<rparr>\<rparr>]\<rparr>
      else s)"

definition log_error :: "log_entry \<Rightarrow> chat_app \<Rightarrow> chat_app" where
  "log_error e s = s\<lparr>console := console s @ [e]\<rparr>"

text \<open>
  The body of \<^verbatim>\<open>for (const line of lines)\<close> (lines 107 to 123): the state is the
  application and \<^verbatim>\<open>fullResponse\<close>; \<open>el\<close> is the bubble of the response.
  Whatever is thrown inside the \<^verbatim>\<open>try\<close> is logged and the loop goes on.
\<close>

definition line_step ::
  "platform \<Rightarrow> nat \<Rightarrow> jstring \<Rightarrow> chat_app \<times> jstring \<Rightarrow> flow \<times> chat_app \<times> jstring" where
  "line_step L el line st =
     (case st of (s, fullResponse) \<Rightarrow>
        if startsWith line (js ''data: '') then
          (let dataStr = substring line 6 in
           if trim dataStr = js ''[DONE]'' then (Break, s, fullResponse)
           else
             (case JSON_parse dataStr of
                None \<Rightarrow> (Next, log_error StreamParseError s, fullResponse)
              | Some data \<Rightarrow>
                  (case delta_content data of
                     Inl e \<Rightarrow> (Next, log_error StreamParseError s, fullResponse)
                   | Inr r \<Rightarrow>
                       (let token = or_empty L r in
                        if truthy L (Some token) then
                          (case to_string L token of
                             Inl e \<Rightarrow> (Next, log_error StreamParseError s, fullResponse)
                           | Inr str \<Rightarrow>
                               (let fullResponse' = fullResponse @ str
                                in (Next, render L el fullResponse' s, fullResponse')))
                        else (Next, s, fullResponse)))))
        else (Next, s, fullResponse))"

fun forLines ::
  "platform \<Rightarrow> nat \<Rightarrow> jstring list \<Rightarrow> chat_app \<times> jstring \<Rightarrow> chat_app \<times> jstring" where
  "forLines L el [] st = st"
| "forLines L el (line # lines) st =
     (case line_step L el line st of
        (Break, st') \<Rightarrow> st'
      | (Next, st') \<Rightarrow> forLines L el lines st')"

text \<open>One turn of \<^verbatim>\<open>while (true)\<close> with a chunk read (lines 103 to 124).\<close>

definition on_chunk ::
  "platform \<Rightarrow> nat \<Rightarrow> jstring \<Rightarrow> chat_app \<times> jstring \<Rightarrow> chat_app \<times> jstring" where
  "on_chunk L el chunk st = forLines L el (split_chunk chunk) st"

text \<open>After the loop (lines 128 to 133).\<close>

definition finish_stream :: "platform \<Rightarrow> nat \<Rightarrow> chat_app \<times> jstring \<Rightarrow> chat_app" where
  "finish_stream L el st =
     (case st of (s, fullResponse) \<Rightarrow>
        highlight_at L el
          (if fullResponse \<noteq> [] then
             s\<lparr>messages := messages s @
                  [\<lparr>content = fullResponse, role = js ''assistant'', timestamp = now s\<rparr>]\<rparr>
           else s))"

text \<open>
  What \<^verbatim>\<open>reader.read()\<close> gives, one after the other: a chunk, as the text that
  \<^verbatim>\<open>decoder.decode\<close> makes of it, or a rejection; the end of the list is
  \<^verbatim>\<open>done\<close>.
\<close>

datatype read_result = Chunk jstring | ReadError

datatype outcome = Returned chat_app | Threw error chat_app

fun read_loop ::
  "platform \<Rightarrow> nat \<Rightarrow> read_result list \<Rightarrow> chat_app \<times> jstring \<Rightarrow> outcome" where
  "read_loop L el [] st = Returned (finish_stream L el st)"
| "read_loop L el (ReadError # rest) st = Threw NetworkError (fst st)"
| "read_loop L el (Chunk chunk # rest) st = read_loop L el rest (on_chunk L el chunk st)"

subsection \<open>sendMessage and streamAIResponse\<close>

text \<open>
  The two functions are asynchronous. Each is cut where it awaits: \<open>submit\<close> runs from the
  call of \<open>sendMessage\<close> to the \<^verbatim>\<open>fetch\<close> (lines 37 to 46 and 59 to 85),
  \<open>open_stream\<close> from the response to the reader (lines 92 and 93), \<open>on_chunk\<close> and
  \<open>finish_stream\<close> follow, and \<open>sendMessage_catch\<close> is the handler (lines 52 to 54).
\<close>

definition submit :: "platform \<Rightarrow> chat_app \<Rightarrow> (chat_app \<times> request) option" where
  "submit L s =
     (let message = trim (messageInput_value s) in
      if message = [] \<or> isTyping s then None
      else
        (let s1 = fst (addMessage L message (js ''user'') True s);
             s2 = s1\<lparr>messageInput_value := [], messageInput_height := js ''auto''\<rparr>;
             s3 = showTypingIndicator s2
         in Some (s3, requestBody s3)))"

definition open_stream :: "platform \<Rightarrow> chat_app \<Rightarrow> chat_app \<times> nat" where
  "open_stream L s =
     (case addMessage L [] (js ''assistant'') False s of
        (s1, el) \<Rightarrow> (hideTypingIndicator s1, el))"

definition error_text :: jstring where
  "error_text = js ''Sorry, I encountered an error. Please check your LM Studio connection.''"

definition sendMessage_catch :: "platform \<Rightarrow> chat_app \<Rightarrow> chat_app" where
  "sendMessage_catch L s =
     log_error SendError
       (fst (addMessage L error_text (js ''assistant'') True (hideTypingIndicator s)))"

text \<open>The answer of the endpoint: no answer, or a status and a body.\<close>

datatype fetch_result = Rejected | Response nat "read_result list"

definition response_ok :: "nat \<Rightarrow> bool" where
  "response_ok status \<longleftrightarrow> 200 \<le> status \<and> status \<le> 299"

text \<open>
  A response with one of these statuses has no body: \<^verbatim>\<open>response.body\<close> is
  \<^verbatim>\<open>null\<close> and \<^verbatim>\<open>getReader()\<close> at line 95 throws a TypeError.
\<close>

definition null_body_status :: "nat \<Rightarrow> bool" where
  "null_body_status status \<longleftrightarrow>
     status = 101 \<or> status = 103 \<or> status = 204 \<or> status = 205 \<or> status = 304"

text \<open>\<open>streamAIResponse\<close> from the answer on, when nothing else runs in between.\<close>

definition streamAIResponse :: "platform \<Rightarrow> fetch_result \<Rightarrow> chat_app \<Rightarrow> outcome" where
  "streamAIResponse L fr s =
     (case fr of
        Rejected \<Rightarrow> Threw NetworkError s
      | Response status body \<Rightarrow>
          if \<not> response_ok status then Threw (HttpError status) s
          else
            (case open_stream L s of
               (s1, el) \<Rightarrow>
                 if null_body_status status then Threw TypeError s1
                 else read_loop L el body (s1, [])))"

text \<open>
  \<open>sendMessage\<close> run to its end against one answer: the final state and the request that
  was sent, if one was.
\<close>

definition sendMessage :: "platform \<Rightarrow> fetch_result \<Rightarrow> chat_app \<Rightarrow> chat_app \<times> request option" where
  "sendMessage L fr s =
     (case submit L s of
        None \<Rightarrow> (s, None)
      | Some (s3, req) \<Rightarrow>
          (case streamAIResponse L fr s3 of
             Returned s' \<Rightarrow> (s', Some req)
           | Threw e s' \<Rightarrow> (sendMessage_catch L s', Some req)))"

subsection \<open>The event loop\<close>

text \<open>
  The page is single-threaded: between two awaits a handler runs alone, and at an await any
  other handler may run. A session is the application together with what is in flight: the
  number of requests whose answer is awaited and, for every response being read, its bubble
  and its \<^verbatim>\<open>fullResponse\<close>.
\<close>

record session =
  app :: chat_app
  awaiting :: nat
  reading :: "(nat \<times> jstring) list"
  sent :: "request list"

datatype event =
    UserSends jstring
  | Answer nat
  | NoAnswer
  | Reads nat jstring
  | ReadEnds nat
  | ReadFails nat

definition remove_nth :: "nat \<Rightarrow> 'a list \<Rightarrow> 'a list" where
  "remove_nth i xs = take i xs @ drop (Suc i) xs"

fun handle :: "platform \<Rightarrow> session \<Rightarrow> event \<Rightarrow> session" where
  "handle L x (UserSends text) =
     (case submit L ((app x)\<lparr>messageInput_value := text\<rparr>) of
        None \<Rightarrow> x\<lparr>app := (app x)\<lparr>messageInput_value := text\<rparr>\<rparr>
      | Some (s, req) \<Rightarrow> x\<lparr>app := s, awaiting := Suc (awaiting x), sent := sent x @ [req]\<rparr>)"
| "handle L x (Answer status) =
     (if awaiting x = 0 then x
      else if \<not> response_ok status then
        x\<lparr>app := sendMessage_catch L (app x), awaiting := awaiting x - 1\<rparr>
      else
        (case open_stream L (app x) of
           (s, el) \<Rightarrow>
             if null_body_status status then
               x\<lparr>app := sendMessage_catch L s, awaiting := awaiting x - 1\<rparr>
             else x\<lparr>app := s, awaiting := awaiting x - 1, reading := reading x @ [(el, [])]\<rparr>))"
| "handle L x NoAnswer =
     (if awaiting x = 0 then x
      else x\<lparr>app := sendMessage_catch L (app x), awaiting := awaiting x - 1\<rparr>)"
| "handle L x (Reads i chunk) =
     (if i < length (reading x) then
        (case reading x ! i of
           (el, full) \<Rightarrow>
             (case on_chunk L el chunk (app x, full) of
                (s, full') \<Rightarrow> x\<lparr>app := s, reading := (reading x)[i := (el, full')]\<rparr>))
      else x)"
| "handle L x (ReadEnds i) =
     (if i < length (reading x) then
        (case reading x ! i of
           (el, full) \<Rightarrow>
             x\<lparr>app := finish_stream L el (app x, full), reading := remove_nth i (reading x)\<rparr>)
      else x)"
| "handle L x (ReadFails i) =
     (if i < length (reading x) then
        x\<lparr>app := sendMessage_catch L (app x), reading := remove_nth i (reading x)\<rparr>
      else x)"

definition in_flight :: "session \<Rightarrow> nat" where
  "in_flight x = awaiting x + length (reading x)"

definition start_session :: "chat_app \<Rightarrow> session" where
  "start_session page = \<lparr>app = ChatApp page, awaiting = 0, reading = [], sent = []\<rparr>"

text \<open>
  A page with nothing in it, and a platform whose renderer yields no code block and whose
  highlighter only marks the element as highlighted.
\<close>

definition blank_page :: chat_app where
  "blank_page =
     \<lparr>messages = [], isTyping = False, chatMessages = [], messageInput_value = [],
      messageInput_height = [], sendButton_disabled = False, typingIndicator_display = [],
      lmStudioUrl_value = [], modelName_value = [], console = [], now = 0\<rparr>"

definition plain_platform :: platform where
  "plain_platform =
     \<lparr>marked_parse = (\<lambda>t. []), highlightElement = (\<lambda>c. c\<lparr>highlighted := True\<rparr>),
      number_truthy = (\<lambda>t. True), number_toString = (\<lambda>t. t)\<rparr>"

subsection \<open>The stream as the endpoint sends it\<close>

text \<open>
  A record carrying the fragment \<open>t\<close> (a text without quotes, backslashes or control
  characters), the end sentinel, and a chunk made of whole records, each followed by the
  blank-line delimiter.
\<close>

definition delta_record :: "jstring \<Rightarrow> jstring" where
  "delta_record t = js ''data: {\"choices\":[{\"delta\":{\"content\":\"'' @ t @ js ''\"}}]}''"

definition done_record :: jstring where
  "done_record = js ''data: [DONE]''"

definition frame_records :: "jstring list \<Rightarrow> jstring" where
  "frame_records rs = concat (map (\<lambda>r. r @ [10, 10]) rs)"

text \<open>
  A record is framed when the splitting gives it back whole: it holds no blank-line
  delimiter and does not end with a line feed.
\<close>

definition framed :: "jstring \<Rightarrow> bool" where
  "framed r \<longleftrightarrow> split_chunk (r @ [10, 10]) = [r, []]"

subsection \<open>What the stream loop reads\<close>

text \<open>
  The sentinel line, the lines of a chunk up to the sentinel, the fragment a line adds to
  \<^verbatim>\<open>fullResponse\<close>, and the message committed at the end.
\<close>

definition is_done :: "jstring \<Rightarrow> bool" where
  "is_done line \<longleftrightarrow> startsWith line (js ''data: '') \<and> trim (substring line 6) = js ''[DONE]''"

definition until_done :: "jstring list \<Rightarrow> jstring list" where
  "until_done lines = takeWhile (\<lambda>line. \<not> is_done line) lines"

definition fragment_of :: "platform \<Rightarrow> jstring \<Rightarrow> jstring" where
  "fragment_of L line =
     (if startsWith line (js ''data: '') \<and> trim (substring line 6) \<noteq> js ''[DONE]'' then
        (case JSON_parse (substring line 6) of
           None \<Rightarrow> []
         | Some data \<Rightarrow>
             (case delta_content data of
                Inl e \<Rightarrow> []
              | Inr r \<Rightarrow>
                  if truthy L (Some (or_empty L r)) then
                    (case to_string L (or_empty L r) of Inl e \<Rightarrow> [] | Inr str \<Rightarrow> str)
                  else []))
      else [])"

definition valid_record :: "jstring \<Rightarrow> bool" where
  "valid_record line \<longleftrightarrow> startsWith line (js ''data: '') \<and> JSON_parse (substring line 6) \<noteq> None"

definition malformed_record :: "jstring \<Rightarrow> bool" where
  "malformed_record line \<longleftrightarrow>
     startsWith line (js ''data: '') \<and> trim (substring line 6) \<noteq> js ''[DONE]'' \<and>
     JSON_parse (substring line 6) = None"

definition lines_read :: "jstring list \<Rightarrow> jstring list" where
  "lines_read chunks = concat (map (\<lambda>chunk. until_done (split_chunk chunk)) chunks)"

fun returned :: "outcome \<Rightarrow> bool" where
  "returned (Returned s) = True"
| "returned (Threw e s) = False"

fun state_of :: "outcome \<Rightarrow> chat_app" where
  "state_of (Returned s) = s"
| "state_of (Threw e s) = s"

definition committed :: "nat \<Rightarrow> jstring \<Rightarrow> message list" where
  "committed t text =
     (if text = [] then [] else [\<lparr>content = text, role = js ''assistant'', timestamp = t\<rparr>])"

text \<open>The fragments read from a chunk of whole records.\<close>

definition group_text :: "platform \<Rightarrow> jstring list \<Rightarrow> jstring" where
  "group_text L g = concat (map (fragment_of L) (until_done (g @ [[]])))"

subsection \<open>States of the recogniser\<close>

text \<open>
  For the statements about pieces of a record: a state inside a string with no escape
  pending, a state outside every string, and the letters a literal may still expect.
\<close>

fun in_plain_string :: "pstate \<Rightarrow> bool" where
  "in_plain_string (MStr k s, st) = True"
| "in_plain_string q = False"

definition lit_ok :: "jstring \<Rightarrow> bool" where
  "lit_ok r = list_all (\<lambda>c. c = 97 \<or> c = 101 \<or> c = 108 \<or> c = 114 \<or> c = 115 \<or> c = 117) r"

fun outside :: "pstate \<Rightarrow> bool" where
  "outside (MStr k s, st) = False"
| "outside (MEsc k s, st) = False"
| "outside (MHex k s ds, st) = False"
| "outside (MLit r v, st) = lit_ok r"
| "outside q = True"

fun lits_ok :: "pstate \<Rightarrow> bool" where
  "lits_ok (MLit r v, st) = lit_ok r"
| "lits_ok q = True"

text \<open>
  Two runs over the same text, one begun inside a string and one outside: as long as both go
  on, one of them is inside a string.
\<close>

definition opposite :: "pstate \<Rightarrow> pstate \<Rightarrow> bool" where
  "opposite p q \<longleftrightarrow> (in_plain_string p \<and> outside q) \<or> (outside p \<and> in_plain_string q)"

section \<open>Properties of the log\<close>

lemma messages_highlight_at [simp]: "messages (highlight_at L el s) = messages s"
  by (simp add: highlight_at_def)

lemma highlight_at_fields [simp]:
  "isTyping (highlight_at L el s) = isTyping s"
  "sendButton_disabled (highlight_at L el s) = sendButton_disabled s"
  "now (highlight_at L el s) = now s"
  "console (highlight_at L el s) = console s"
  by (simp_all add: highlight_at_def)

lemma messages_addMessage:
  "messages (fst (addMessage L c r h s)) =
     (if h then messages s @ [\<lparr>content = c, role = r, timestamp = now s\<rparr>] else messages s)"
  by (simp add: addMessage_def Let_def)

lemma addMessage_fields [simp]:
  "isTyping (fst (addMessage L c r h s)) = isTyping s"
  "sendButton_disabled (fst (addMessage L c r h s)) = sendButton_disabled s"
  "now (fst (addMessage L c r h s)) = now s"
  by (simp_all add: addMessage_def Let_def)

lemma hide_fields [simp]:
  "isTyping (hideTypingIndicator s) = False"
  "sendButton_disabled (hideTypingIndicator s) = False"
  "messages (hideTypingIndicator s) = messages s"
  "now (hideTypingIndicator s) = now s"
  by (simp_all add: hideTypingIndicator_def)

text \<open>
  C1, as stated: after \<open>clearChat\<close> the log holds exactly one message, the assistant's
  greeting. It does not: on a page whose log holds one user message, the log read after
  \<open>clearChat\<close> has no message.
\<close>

theorem clearChat_log_counterexample:
  "length (snapshot (fst (addMessage plain_platform (js ''hi'') (js ''user'') True (ChatApp blank_page)))) = 1 \<and>
   length (snapshot (clearChat
      (fst (addMessage plain_platform (js ''hi'') (js ''user'') True (ChatApp blank_page))))) \<noteq> 1"
  by (simp add: snapshot_def clearChat_def messages_addMessage ChatApp_def)

text \<open>
  C1, amended: whatever the log held, after \<open>clearChat\<close> it is empty, and so is what a
  request reads of it; the greeting is the single element of the displayed conversation,
  of class \<^verbatim>\<open>message assistant\<close>, and is no message of the log.
\<close>

theorem clearChat_empties_log:
  "messages (clearChat s) = [] \<and> snapshot (clearChat s) = [] \<and>
   chatMessages (clearChat s) = [greeting] \<and> el_class greeting = js ''message assistant''"
  by (simp add: snapshot_def clearChat_def greeting_def)

text \<open>
  C8: for every sequence of messages appended with \<open>addMessage\<close>, the log as a request
  reads it is the earlier log followed by the appended messages in the order of their
  insertion, each with the role and the content it was appended with.
\<close>

theorem snapshot_insertion_order:
  "snapshot (foldl (\<lambda>s (c, r). fst (addMessage L c r True s)) s0 ms) =
     snapshot s0 @ map (\<lambda>(c, r). (r, c)) ms"
proof (induction ms arbitrary: s0)
  case Nil
  show ?case by simp
next
  case (Cons m ms)
  obtain c r where m: "m = (c, r)" by (cases m)
  have "snapshot (fst (addMessage L c r True s0)) = snapshot s0 @ [(r, c)]"
    by (simp add: snapshot_def messages_addMessage)
  with Cons.IH [of "fst (addMessage L c r True s0)"] m show ?case by simp
qed

section \<open>Submitting\<close>

lemma dropWhile_all: "list_all P v \<Longrightarrow> dropWhile P v = []"
  by (induction v) simp_all

lemma trim_whitespace: "list_all isWhiteSpace v \<Longrightarrow> trim v = []"
  by (simp add: trim_def dropWhile_all)

text \<open>
  C9: when the input is empty or holds only white space, it trims to the empty string and
  \<open>sendMessage\<close> does nothing: the state is unchanged, so no message is appended, and no
  request is sent.
\<close>

theorem blank_input_noop:
  assumes "list_all isWhiteSpace v"
  shows "trim v = [] \<and> submit L (s\<lparr>messageInput_value := v\<rparr>) = None \<and>
         sendMessage L fr (s\<lparr>messageInput_value := v\<rparr>) = (s\<lparr>messageInput_value := v\<rparr>, None)"
  using trim_whitespace [OF assms] by (simp add: submit_def sendMessage_def)

theorem blank_input_noop_witness:
  "list_all isWhiteSpace [32, 9, 10] \<and> trim [32, 9, 10] = [] \<and>
   sendMessage plain_platform (Response 200 []) (blank_page\<lparr>messageInput_value := [32, 9, 10]\<rparr>)
     = (blank_page\<lparr>messageInput_value := [32, 9, 10]\<rparr>, None)"
proof -
  have h: "list_all isWhiteSpace [32, 9, 10]" by (simp add: isWhiteSpace_def)
  show ?thesis
    using h blank_input_noop [OF h, of plain_platform blank_page "Response 200 []"] by simp
qed

lemma submit_Some:
  assumes "trim (messageInput_value s) \<noteq> []" "\<not> isTyping s"
  shows "\<exists>s3. submit L s = Some (s3, requestBody s3) \<and>
           messages s3 = messages s @
             [\<lparr>content = trim (messageInput_value s), role = js ''user'', timestamp = now s\<rparr>] \<and>
           now s3 = now s \<and> isTyping s3"
  using assms by (simp add: submit_def Let_def showTypingIndicator_def messages_addMessage)

text \<open>While \<open>isTyping\<close> is set, a submission changes nothing and sends nothing.\<close>

lemma sendMessage_while_typing:
  "isTyping s \<Longrightarrow> submit L s = None \<and> sendMessage L fr s = (s, None)"
  by (simp add: submit_def sendMessage_def)

text \<open>
  C7: when a submission is accepted and the endpoint answers with a status that is not a
  success, \<open>sendMessage\<close> ends normally: the log has gained the user's message and exactly
  one assistant message, the apology; \<open>isTyping\<close> is false again and the send button is
  enabled; the request was sent.
\<close>

theorem http_error_recovers:
  assumes "trim (messageInput_value s) \<noteq> []" and "\<not> isTyping s" and "\<not> response_ok status"
  shows "messages (fst (sendMessage L (Response status body) s)) =
           messages s @
             [\<lparr>content = trim (messageInput_value s), role = js ''user'', timestamp = now s\<rparr>,
              \<lparr>content = error_text, role = js ''assistant'', timestamp = now s\<rparr>] \<and>
         isTyping (fst (sendMessage L (Response status body) s)) = False \<and>
         sendButton_disabled (fst (sendMessage L (Response status body) s)) = False \<and>
         snd (sendMessage L (Response status body) s) \<noteq> None"
proof -
  obtain s3 where s3: "submit L s = Some (s3, requestBody s3)"
    "messages s3 = messages s @
       [\<lparr>content = trim (messageInput_value s), role = js ''user'', timestamp = now s\<rparr>]"
    "now s3 = now s"
    using submit_Some [OF assms(1,2)] by blast
  have send: "sendMessage L (Response status body) s = (sendMessage_catch L s3, Some (requestBody s3))"
    using s3(1) assms(3) by (simp add: sendMessage_def streamAIResponse_def)
  show ?thesis
    using s3(2,3)
    by (simp add: send sendMessage_catch_def log_error_def messages_addMessage)
qed

theorem http_error_recovers_witness:
  "trim (messageInput_value (blank_page\<lparr>messageInput_value := js ''hi''\<rparr>)) \<noteq> [] \<and>
   \<not> isTyping (blank_page\<lparr>messageInput_value := js ''hi''\<rparr>) \<and> \<not> response_ok 500 \<and>
   map role (messages (fst (sendMessage plain_platform (Response 500 [])
      (blank_page\<lparr>messageInput_value := js ''hi''\<rparr>)))) = [js ''user'', js ''assistant''] \<and>
   isTyping (fst (sendMessage plain_platform (Response 500 [])
      (blank_page\<lparr>messageInput_value := js ''hi''\<rparr>))) = False"
proof -
  let ?s = "blank_page\<lparr>messageInput_value := js ''hi''\<rparr>"
  have h1: "trim (messageInput_value ?s) \<noteq> []"
    by (simp add: trim_def js_def isWhiteSpace_def)
  have h2: "\<not> isTyping ?s" by (simp add: blank_page_def)
  have h3: "\<not> response_ok 500" by (simp add: response_ok_def)
  show ?thesis
    using h1 h2 h3 http_error_recovers [OF h1 h2 h3, of plain_platform "[]"]
    by (simp add: blank_page_def)
qed

text \<open>
  C6 says that a submission made while a response is in flight does nothing, so that at
  most one response is in flight at any time. The flag \<open>isTyping\<close> is cleared as soon as
  the answer arrives, before its body is read: on a fresh page, after a first message is
  sent and its answer has arrived with status 200, \<open>isTyping\<close> is false, and a second
  message sent then is accepted; two requests have been sent and two exchanges are in
  flight, one awaiting its answer and one being read.
\<close>

theorem second_send_while_streaming:
  "in_flight (foldl (handle plain_platform) (start_session blank_page)
      [UserSends (js ''a''), Answer 200, UserSends (js ''b'')]) = 2 \<and>
   length (sent (foldl (handle plain_platform) (start_session blank_page)
      [UserSends (js ''a''), Answer 200, UserSends (js ''b'')])) = 2 \<and>
   isTyping (app (foldl (handle plain_platform) (start_session blank_page)
      [UserSends (js ''a''), Answer 200])) = False"
  by (simp add: in_flight_def start_session_def ChatApp_def blank_page_def submit_def
      trim_def js_def isWhiteSpace_def Let_def addMessage_def showTypingIndicator_def
      hideTypingIndicator_def response_ok_def null_body_status_def open_stream_def
      plain_platform_def highlight_at_def
      highlightCodeBlocks_def split: prod.splits)

section \<open>The stream loop\<close>

lemma render_fields [simp]:
  "messages (render L el f s) = messages s"
  "now (render L el f s) = now s"
  "isTyping (render L el f s) = isTyping s"
  "sendButton_disabled (render L el f s) = sendButton_disabled s"
  by (simp_all add: render_def)

lemma log_error_fields [simp]:
  "messages (log_error e s) = messages s"
  "now (log_error e s) = now s"
  "isTyping (log_error e s) = isTyping s"
  "sendButton_disabled (log_error e s) = sendButton_disabled s"
  by (simp_all add: log_error_def)

lemma line_step_flow: "fst (line_step L el l (s, f)) = (if is_done l then Break else Next)"
  by (simp add: line_step_def is_done_def Let_def split: option.splits sum.splits)

lemma line_step_text: "snd (snd (line_step L el l (s, f))) = f @ fragment_of L l"
  by (simp add: line_step_def fragment_of_def Let_def split: option.splits sum.splits)

lemma line_step_keeps:
  "messages (fst (snd (line_step L el l (s, f)))) = messages s \<and>
   now (fst (snd (line_step L el l (s, f)))) = now s \<and>
   isTyping (fst (snd (line_step L el l (s, f)))) = isTyping s \<and>
   sendButton_disabled (fst (snd (line_step L el l (s, f)))) = sendButton_disabled s"
  by (simp add: line_step_def Let_def split: option.splits sum.splits)

lemma fragment_of_done: "is_done l \<Longrightarrow> fragment_of L l = []"
  by (simp add: fragment_of_def is_done_def)

lemma forLines_text:
  "snd (forLines L el ls (s, f)) = f @ concat (map (fragment_of L) (until_done ls))"
proof (induction ls arbitrary: s f)
  case Nil
  show ?case by (simp add: until_done_def)
next
  case (Cons l ls)
  obtain fl s' f' where st: "line_step L el l (s, f) = (fl, s', f')"
    by (cases "line_step L el l (s, f)")
  have fl: "fl = (if is_done l then Break else Next)"
    using line_step_flow [of L el l s f] st by simp
  have f': "f' = f @ fragment_of L l"
    using line_step_text [of L el l s f] st by simp
  show ?case
  proof (cases "is_done l")
    case True
    then show ?thesis using st fl f' by (simp add: until_done_def fragment_of_done)
  next
    case False
    then show ?thesis using st fl f' Cons.IH [of s' f'] by (simp add: until_done_def)
  qed
qed

lemma forLines_keeps:
  "messages (fst (forLines L el ls (s, f))) = messages s \<and>
   now (fst (forLines L el ls (s, f))) = now s \<and>
   isTyping (fst (forLines L el ls (s, f))) = isTyping s \<and>
   sendButton_disabled (fst (forLines L el ls (s, f))) = sendButton_disabled s"
proof (induction ls arbitrary: s f)
  case Nil
  show ?case by simp
next
  case (Cons l ls)
  obtain fl s' f' where st: "line_step L el l (s, f) = (fl, s', f')"
    by (cases "line_step L el l (s, f)")
  have k: "messages s' = messages s \<and> now s' = now s \<and> isTyping s' = isTyping s \<and>
           sendButton_disabled s' = sendButton_disabled s"
    using line_step_keeps [of L el l s f] st by simp
  show ?case
  proof (cases fl)
    case Break
    then show ?thesis using st k by simp
  next
    case Next
    then show ?thesis using st k Cons.IH [of s' f'] by simp
  qed
qed

lemma read_loop_chunks:
  "\<exists>t. read_loop L el (map Chunk cs) (s, f) = Returned t \<and>
       messages t = messages s @ committed (now s) (f @ concat (map (fragment_of L) (lines_read cs))) \<and>
       isTyping t = isTyping s \<and> sendButton_disabled t = sendButton_disabled s"
proof (induction cs arbitrary: s f)
  case Nil
  show ?case by (simp add: finish_stream_def lines_read_def committed_def)
next
  case (Cons c cs)
  obtain s' f' where st: "forLines L el (split_chunk c) (s, f) = (s', f')"
    by (cases "forLines L el (split_chunk c) (s, f)")
  have f': "f' = f @ concat (map (fragment_of L) (until_done (split_chunk c)))"
    using forLines_text [of L el "split_chunk c" s f] st by simp
  have k: "messages s' = messages s \<and> now s' = now s \<and> isTyping s' = isTyping s \<and>
           sendButton_disabled s' = sendButton_disabled s"
    using forLines_keeps [of L el "split_chunk c" s f] st by simp
  show ?case
    using Cons.IH [of s' f'] st f' k by (simp add: on_chunk_def lines_read_def)
qed

lemma open_stream_fields:
  "messages (fst (open_stream L s)) = messages s \<and> now (fst (open_stream L s)) = now s \<and>
   isTyping (fst (open_stream L s)) = False \<and> sendButton_disabled (fst (open_stream L s)) = False"
  by (simp add: open_stream_def split_beta messages_addMessage)

lemma streamAIResponse_chunks:
  assumes "response_ok status" and "\<not> null_body_status status"
  shows "\<exists>t. streamAIResponse L (Response status (map Chunk cs)) s = Returned t \<and>
           messages t = messages s @ committed (now s) (concat (map (fragment_of L) (lines_read cs))) \<and>
           isTyping t = False \<and> sendButton_disabled t = False"
proof -
  obtain s1 el where o: "open_stream L s = (s1, el)" by (cases "open_stream L s")
  have k: "messages s1 = messages s \<and> now s1 = now s \<and> isTyping s1 = False \<and> sendButton_disabled s1 = False"
    using o open_stream_fields [of L s] by simp
  show ?thesis
    using read_loop_chunks [of L el cs s1 "[]"] o k assms
    by (simp add: streamAIResponse_def)
qed

lemma streamAIResponse_log:
  assumes "response_ok status" and "\<not> null_body_status status"
  shows "returned (streamAIResponse L (Response status (map Chunk cs)) s) \<and>
         messages (state_of (streamAIResponse L (Response status (map Chunk cs)) s)) =
           messages s @ committed (now s) (concat (map (fragment_of L) (lines_read cs)))"
  using streamAIResponse_chunks [OF assms, of L cs s] by auto

lemma line_step_done: "is_done d \<Longrightarrow> line_step L el d (s, f) = (Break, s, f)"
  by (simp add: line_step_def is_done_def)

text \<open>Within a chunk, nothing after the sentinel is looked at.\<close>

lemma forLines_stops_at_done:
  assumes "is_done d"
  shows "forLines L el (pre @ d # post) st = forLines L el (pre @ [d]) st"
proof (induction pre arbitrary: st)
  case Nil
  obtain s f where st: "st = (s, f)" by (cases st)
  show ?case using line_step_done [OF assms, of L el s f] st by simp
next
  case (Cons l pre)
  obtain fl st' where ls: "line_step L el l st = (fl, st')" by (cases "line_step L el l st")
  show ?case using ls Cons.IH [of st'] by (cases fl) simp_all
qed

lemmas eval_defs = js_def frame_records_def delta_record_def done_record_def split_chunk_def
  lines_read_def until_done_def is_done_def startsWith_def substring_def trim_def isWhiteSpace_def
  fragment_of_def JSON_parse_def json_ws_def start_value_def close_string_def
  delta_content_def obj_lookup_def or_empty_def committed_def response_ok_def done_step_def
  null_body_status_def framed_def valid_record_def malformed_record_def
  is_digit_def num_finish_def hexval_def escape_char_def

text \<open>
  C2 says that once a \<^verbatim>\<open>[DONE]\<close> record has been processed, no record after it adds a
  fragment, in the same chunk or in a later one. The \<^verbatim>\<open>break\<close> at the sentinel leaves
  only the loop over the lines of the current chunk (\<open>forLines_stops_at_done\<close>); the
  reading loop goes on. Here the first chunk carries the fragment \<open>Hi\<close> and the sentinel,
  a second chunk carries the fragment \<open>X\<close>: the committed message is \<open>HiX\<close>.
\<close>

theorem fragment_after_done_chunk:
  "returned (streamAIResponse plain_platform
      (Response 200 [Chunk (frame_records [delta_record (js ''Hi''), done_record]),
                     Chunk (frame_records [delta_record (js ''X'')])]) blank_page) \<and>
   map content (messages (state_of (streamAIResponse plain_platform
      (Response 200 [Chunk (frame_records [delta_record (js ''Hi''), done_record]),
                     Chunk (frame_records [delta_record (js ''X'')])]) blank_page))) = [js ''HiX'']"
proof -
  have ok: "response_ok 200" by (simp add: response_ok_def)
  have body: "\<not> null_body_status 200" by (simp add: null_body_status_def)
  have "concat (map (fragment_of plain_platform)
          (lines_read [frame_records [delta_record (js ''Hi''), done_record],
                       frame_records [delta_record (js ''X'')]])) = js ''HiX''"
    by (simp add: eval_defs)
  then show ?thesis
    using streamAIResponse_log [OF ok body, of plain_platform
        "[frame_records [delta_record (js ''Hi''), done_record], frame_records [delta_record (js ''X'')]]"
        blank_page]
    by (simp add: committed_def blank_page_def js_def)
qed

lemma split_from_framed:
  "split_from cur (r @ [10, 10]) = [cur @ r, []] \<Longrightarrow>
   split_from cur (r @ 10 # 10 # rest) = (cur @ r) # split_from [] rest"
proof (induction cur r rule: split_from.induct)
  case (1 cur)
  show ?case by simp
next
  case (2 cur c)
  then show ?case by (simp split: if_splits)
next
  case (3 cur c d s)
  show ?case
  proof (cases "c = 10 \<and> d = 10")
    case True
    then show ?thesis using "3.prems" by simp
  next
    case False
    have "split_from (cur @ [c]) ((d # s) @ [10, 10]) = [(cur @ [c]) @ d # s, []]"
      using "3.prems" False by simp
    then have "split_from (cur @ [c]) ((d # s) @ 10 # 10 # rest) =
                 ((cur @ [c]) @ d # s) # split_from [] rest"
      using "3.IH"(2) False by blast
    then show ?thesis using False by simp
  qed
qed

lemma split_framed_records:
  "\<forall>r\<in>set rs. framed r \<Longrightarrow> split_chunk (frame_records rs) = rs @ [[]]"
proof (induction rs)
  case Nil
  show ?case by (simp add: split_chunk_def frame_records_def)
next
  case (Cons r rs)
  have fr: "split_from [] (r @ [10, 10]) = [[] @ r, []]"
    using Cons.prems by (simp add: framed_def split_chunk_def)
  have "split_chunk (frame_records (r # rs)) = split_from [] (r @ 10 # 10 # frame_records rs)"
    by (simp add: split_chunk_def frame_records_def)
  also have "\<dots> = r # split_chunk (frame_records rs)"
    using split_from_framed [OF fr, of "frame_records rs"] by (simp add: split_chunk_def)
  finally show ?case using Cons by simp
qed

lemma empty_line_plain: "\<not> is_done [] \<and> fragment_of L [] = []"
  by (simp add: is_done_def fragment_of_def startsWith_def js_def)

lemma group_text_no_done:
  "\<forall>r\<in>set g. \<not> is_done r \<Longrightarrow> group_text L g = concat (map (fragment_of L) g)"
  by (simp add: group_text_def until_done_def empty_line_plain)

lemma group_text_done_last:
  "\<forall>r\<in>set g. \<not> is_done r \<Longrightarrow> is_done d \<Longrightarrow>
   group_text L (g @ [d]) = concat (map (fragment_of L) g)"
  by (simp add: group_text_def until_done_def takeWhile_append1 takeWhile_tail)

lemma groups_all_empty:
  "concat gs = [] \<Longrightarrow> concat (map (group_text L) gs) = []"
  by (induction gs) (simp_all add: group_text_def until_done_def empty_line_plain)

lemma groups_text_no_done:
  "\<forall>r\<in>set (concat gs). \<not> is_done r \<Longrightarrow>
   concat (map (group_text L) gs) = concat (map (fragment_of L) (concat gs))"
  by (induction gs) (simp_all add: group_text_no_done)

lemma groups_text:
  "concat gs = rs @ [d] \<Longrightarrow> \<forall>r\<in>set rs. \<not> is_done r \<Longrightarrow> is_done d \<Longrightarrow>
   concat (map (group_text L) gs) = concat (map (fragment_of L) rs)"
proof (induction gs arbitrary: rs)
  case Nil
  then show ?case by simp
next
  case (Cons g gs)
  show ?case
  proof (cases "concat gs = []")
    case True
    have "g @ concat gs = rs @ [d]" using Cons.prems(1) by simp
    then have g: "g = rs @ [d]" by (simp only: True append_Nil2)
    show ?thesis
      using Cons.prems(2,3) groups_all_empty [OF True, of L]
      by (simp add: g group_text_done_last)
  next
    case False
    then obtain rs' where rs': "concat gs = rs' @ [last (concat gs)]"
      by (metis append_butlast_last_id)
    have eq: "g @ rs' @ [last (concat gs)] = rs @ [d]"
      using Cons.prems(1) rs' by simp
    then have "g @ rs' = rs \<and> last (concat gs) = d"
      by (metis append_assoc append1_eq_conv)
    then have parts: "rs = g @ rs'" "concat gs = rs' @ [d]" using rs' by auto
    have nd: "\<forall>r\<in>set g. \<not> is_done r" "\<forall>r\<in>set rs'. \<not> is_done r"
      using Cons.prems(2) parts(1) by auto
    show ?thesis
      using Cons.IH [OF parts(2) nd(2) Cons.prems(3)] parts(1) group_text_no_done [OF nd(1), of L]
      by simp
  qed
qed

lemma lines_read_frames:
  "\<forall>r\<in>set (concat gs). framed r \<Longrightarrow>
   concat (map (fragment_of L) (lines_read (map frame_records gs))) = concat (map (group_text L) gs)"
  by (induction gs) (simp_all add: lines_read_def group_text_def split_framed_records)

lemma done_record_facts: "is_done done_record \<and> framed done_record"
  by (simp add: eval_defs)

text \<open>
  A stream of framed records, none of them the sentinel, ended by the sentinel or by the
  close of the connection, and cut into chunks of whole records: every record is read.
\<close>

lemma framed_stream_text:
  assumes "\<forall>r\<in>set rs. framed r \<and> \<not> is_done r"
    and "concat gs = rs \<or> concat gs = rs @ [done_record]"
  shows "concat (map (fragment_of L) (lines_read (map frame_records gs))) =
         concat (map (fragment_of L) rs)"
proof -
  have fr: "\<forall>r\<in>set (concat gs). framed r"
    using assms(2)
  proof
    assume c: "concat gs = rs"
    show ?thesis unfolding c using assms(1) by blast
  next
    assume c: "concat gs = rs @ [done_record]"
    show ?thesis unfolding c using assms(1) done_record_facts by auto
  qed
  have nd: "\<forall>r\<in>set rs. \<not> is_done r" using assms(1) by blast
  have "concat (map (group_text L) gs) = concat (map (fragment_of L) rs)"
    using assms(2)
  proof
    assume c: "concat gs = rs"
    have "\<forall>r\<in>set (concat gs). \<not> is_done r" using nd c by simp
    then show ?thesis using groups_text_no_done [of gs L] c by simp
  next
    assume c: "concat gs = rs @ [done_record]"
    show ?thesis using groups_text [OF c nd, of L] done_record_facts by blast
  qed
  then show ?thesis using lines_read_frames [OF fr, of L] by simp
qed

text \<open>
  C5, as stated: whenever the fragments \<open>Hel\<close>, \<open>lo, \<close>, \<open>world!\<close> are streamed and
  ended by the sentinel, \<open>Hello, world!\<close> is committed. Nothing is carried from one chunk
  to the next, so it depends on where the network cuts the stream: the same stream, cut
  inside the second record, commits \<open>Helworld!\<close>.
\<close>

theorem hello_world_cut_counterexample:
  "(frame_records [delta_record (js ''Hel'')] @ js ''data: {\"choices\":[{\"del'') @
     (js ''ta\":{\"content\":\"lo, \"}}]}'' @ [10, 10] @
      frame_records [delta_record (js ''world!''), done_record]) =
   frame_records [delta_record (js ''Hel''), delta_record (js ''lo, ''),
                  delta_record (js ''world!''), done_record] \<and>
   returned (streamAIResponse plain_platform
      (Response 200
        [Chunk (frame_records [delta_record (js ''Hel'')] @ js ''data: {\"choices\":[{\"del''),
         Chunk (js ''ta\":{\"content\":\"lo, \"}}]}'' @ [10, 10] @
                frame_records [delta_record (js ''world!''), done_record])])
      blank_page) \<and>
   map content (messages (state_of (streamAIResponse plain_platform
      (Response 200
        [Chunk (frame_records [delta_record (js ''Hel'')] @ js ''data: {\"choices\":[{\"del''),
         Chunk (js ''ta\":{\"content\":\"lo, \"}}]}'' @ [10, 10] @
                frame_records [delta_record (js ''world!''), done_record])])
      blank_page))) = [js ''Helworld!'']"
proof -
  let ?c1 = "frame_records [delta_record (js ''Hel'')] @ js ''data: {\"choices\":[{\"del''"
  let ?c2 = "js ''ta\":{\"content\":\"lo, \"}}]}'' @ [10, 10] @
             frame_records [delta_record (js ''world!''), done_record]"
  have ok: "response_ok 200" by (simp add: response_ok_def)
  have body: "\<not> null_body_status 200" by (simp add: null_body_status_def)
  have same: "?c1 @ ?c2 =
      frame_records [delta_record (js ''Hel''), delta_record (js ''lo, ''),
                     delta_record (js ''world!''), done_record]"
    by (simp add: frame_records_def delta_record_def js_def)
  have "concat (map (fragment_of plain_platform) (lines_read [?c1, ?c2])) = js ''Helworld!''"
    by (simp add: eval_defs)
  then have "returned (streamAIResponse plain_platform (Response 200 [Chunk ?c1, Chunk ?c2]) blank_page) \<and>
     map content (messages (state_of (streamAIResponse plain_platform
       (Response 200 [Chunk ?c1, Chunk ?c2]) blank_page))) = [js ''Helworld!'']"
    using streamAIResponse_log [OF ok body, of plain_platform "[?c1, ?c2]" blank_page]
    by (simp add: committed_def blank_page_def js_def)
  then show ?thesis using same by blast
qed

text \<open>
  C5, amended: the endpoint answers with a success status that has a body and streams the
  records of the fragments \<open>Hel\<close>, \<open>lo, \<close>, \<open>world!\<close> and then the end sentinel, in
  chunks of whole records (every record followed by the blank-line delimiter), grouped in
  any way. Then \<open>streamAIResponse\<close> returns, and the log has gained exactly one message,
  of role assistant and content \<open>Hello, world!\<close>.
\<close>

theorem hello_world_stream:
  assumes "concat gs = [delta_record (js ''Hel''), delta_record (js ''lo, ''),
                        delta_record (js ''world!''), done_record]"
    and "response_ok status" and "\<not> null_body_status status"
  shows "returned (streamAIResponse L (Response status (map (\<lambda>g. Chunk (frame_records g)) gs)) s) \<and>
         messages (state_of (streamAIResponse L (Response status (map (\<lambda>g. Chunk (frame_records g)) gs)) s)) =
           messages s @ [\<lparr>content = js ''Hello, world!'', role = js ''assistant'', timestamp = now s\<rparr>]"
proof -
  let ?rs = "[delta_record (js ''Hel''), delta_record (js ''lo, ''), delta_record (js ''world!'')]"
  have cat: "concat gs = ?rs \<or> concat gs = ?rs @ [done_record]" using assms(1) by simp
  have fr: "\<forall>r\<in>set ?rs. framed r \<and> \<not> is_done r" by (simp add: eval_defs)
  have frags: "concat (map (fragment_of L) ?rs) = js ''Hello, world!''"
    by (simp add: eval_defs)
  have total: "concat (map (fragment_of L) (lines_read (map frame_records gs))) = js ''Hello, world!''"
    using framed_stream_text [OF fr cat, of L] frags by simp
  have m: "map (\<lambda>g. Chunk (frame_records g)) gs = map Chunk (map frame_records gs)" by simp
  show ?thesis
    unfolding m using streamAIResponse_log [OF assms(2,3), of L "map frame_records gs" s] total
    by (simp add: committed_def js_def)
qed

theorem hello_world_stream_witness:
  "concat [[delta_record (js ''Hel'')], [delta_record (js ''lo, ''), delta_record (js ''world!'')], [done_record]]
     = [delta_record (js ''Hel''), delta_record (js ''lo, ''), delta_record (js ''world!''), done_record] \<and>
   response_ok 200 \<and> \<not> null_body_status 200 \<and>
   map content (messages (state_of (streamAIResponse plain_platform
      (Response 200 [Chunk (frame_records [delta_record (js ''Hel'')]),
                     Chunk (frame_records [delta_record (js ''lo, ''), delta_record (js ''world!'')]),
                     Chunk (frame_records [done_record])]) blank_page))) = [js ''Hello, world!'']"
proof -
  let ?gs = "[[delta_record (js ''Hel'')], [delta_record (js ''lo, ''), delta_record (js ''world!'')], [done_record]]"
  have h1: "concat ?gs = [delta_record (js ''Hel''), delta_record (js ''lo, ''),
                        delta_record (js ''world!''), done_record]" by simp
  have h2: "response_ok 200" by (simp add: response_ok_def)
  have h3: "\<not> null_body_status 200" by (simp add: null_body_status_def)
  show ?thesis
    using h1 h2 h3 hello_world_stream [OF h1 h2 h3, of plain_platform blank_page]
    by (simp add: blank_page_def)
qed

lemma fragment_of_invalid: "\<not> valid_record l \<Longrightarrow> fragment_of L l = []"
  by (auto simp: valid_record_def fragment_of_def)



text \<open>
  A record that parses but whose fragment cannot be made a string is logged and skipped in
  the same way: here the content is an object with a member \<^verbatim>\<open>toString\<close>.
\<close>

lemma line_step_unprintable:
  "line_step plain_platform el
     (js ''data: {\"choices\":[{\"delta\":{\"content\":{\"toString\":1}}}]}'') (s, f) =
   (Next, log_error StreamParseError s, f)"
  by (simp add: line_step_def has_own_def eval_defs)




section \<open>The finalization pass\<close>

lemma is_copy_button_hl_child [simp]: "is_copy_button (hl_child L x) = is_copy_button x"
  by (cases x) simp_all

lemma is_code_hl_child [simp]: "is_code (hl_child L x) = is_code x"
  by (cases x) simp_all

lemma hl_child_not_code: "\<not> is_code x \<Longrightarrow> hl_child L x = x"
  by (cases x) simp_all

lemma list_ex_button_map [simp]:
  "list_ex is_copy_button (map (hl_child L) p) = list_ex is_copy_button p"
  by (induction p) simp_all

lemma first_code_snoc:
  "first_code (p @ [x]) =
     (case first_code p of
        Some c \<Rightarrow> Some c
      | None \<Rightarrow> (case x of Code c n \<Rightarrow> Some c | _ \<Rightarrow> None))"
  by (induction p rule: first_code.induct) (simp_all split: pre_child.splits)

lemma no_button_take: "\<not> list_ex is_copy_button p \<Longrightarrow> \<not> list_ex is_copy_button (take k p)"
  by (auto simp: list_ex_iff dest: in_set_takeD)

lemma no_button_drop: "\<not> list_ex is_copy_button p \<Longrightarrow> \<not> list_ex is_copy_button (drop k p)"
  by (auto simp: list_ex_iff dest: in_set_dropD)

lemma visit_prefix:
  assumes "k \<le> length p"
  shows "foldl (\<lambda>q i. visit_code L i q) p (filter (\<lambda>i. is_code (p ! i)) [0..<k]) =
           map (hl_child L) (take k p) @ drop k p @ appended_upto L p k"
  using assms
proof (induction k)
  case 0
  show ?case by (simp add: appended_upto_def attached_def)
next
  case (Suc k)
  then have k: "k < length p" by simp
  let ?M = "map (hl_child L) (take k p)"
  let ?A = "appended_upto L p k"
  have IH: "foldl (\<lambda>q i. visit_code L i q) p (filter (\<lambda>i. is_code (p ! i)) [0..<k]) =
              ?M @ drop k p @ ?A"
    using Suc by simp
  have dk: "drop k p = p ! k # drop (Suc k) p" using k by (simp add: Cons_nth_drop_Suc)
  have tk: "take (Suc k) p = take k p @ [p ! k]" using k by (simp add: take_Suc_conv_app_nth)
  have lenM: "length ?M = k" using k by simp
  show ?case
  proof (cases "p ! k")
    case (Code c n)
    let ?c' = "highlightElement L c"
    let ?q = "?M @ drop k p @ ?A"
    have qk: "?q ! k = Code c n" using lenM dk Code by (simp add: nth_append)
    have lq: "k < length ?q" using k by simp
    have upd: "?q[k := Code ?c' (Suc n)] = ?M @ (Code ?c' (Suc n) # drop (Suc k) p) @ ?A"
      using lenM dk by (simp add: list_update_append)
    have btn: "list_ex is_copy_button (?q[k := Code ?c' (Suc n)]) \<longleftrightarrow>
                 list_ex is_copy_button p \<or> first_code (take k p) \<noteq> None"
    proof (cases "list_ex is_copy_button p")
      case True
      have "list_ex is_copy_button (take k p @ drop k p)" using True by simp
      then have "list_ex is_copy_button (take k p) \<or> list_ex is_copy_button (drop (Suc k) p)"
        using dk Code by simp
      then show ?thesis using True upd by auto
    next
      case False
      show ?thesis
        using False no_button_take [OF False, of k] no_button_drop [OF False, of "Suc k"] upd
        by (auto simp: appended_upto_def attached_def split: option.splits)
    qed
    have visit: "visit_code L k ?q =
        (if list_ex is_copy_button p \<or> first_code (take k p) \<noteq> None
         then ?M @ (Code ?c' (Suc n) # drop (Suc k) p) @ ?A
         else (?M @ (Code ?c' (Suc n) # drop (Suc k) p) @ ?A) @ [LangIndicator (lang_of ?c'), CopyButton (js ''Copy'')])"
      unfolding visit_code_def using lq qk btn upd by (simp add: Let_def)
    have A': "appended_upto L p (Suc k) =
        (if list_ex is_copy_button p \<or> first_code (take k p) \<noteq> None then ?A
         else [LangIndicator (lang_of ?c'), CopyButton (js ''Copy'')])"
      using tk Code no_button_take [of p k] no_button_take [of p "Suc k"]
      by (auto simp: appended_upto_def attached_def first_code_snoc split: option.splits)
    have A0: "\<not> (list_ex is_copy_button p \<or> first_code (take k p) \<noteq> None) \<Longrightarrow> ?A = []"
      by (auto simp: appended_upto_def attached_def)
    have "foldl (\<lambda>q i. visit_code L i q) p (filter (\<lambda>i. is_code (p ! i)) [0..<Suc k]) =
            visit_code L k ?q"
      using IH Code by simp
    also have "\<dots> = map (hl_child L) (take (Suc k) p) @ drop (Suc k) p @ appended_upto L p (Suc k)"
      using visit A' A0 tk Code by auto
    finally show ?thesis .
  next
    case (LangIndicator t)
    then have nc: "\<not> is_code (p ! k)" by simp
    have "appended_upto L p (Suc k) = ?A"
      using tk LangIndicator by (simp add: appended_upto_def attached_def first_code_snoc split: option.splits)
    then show ?thesis using IH nc tk dk LangIndicator by simp
  next
    case (CopyButton t)
    then have nc: "\<not> is_code (p ! k)" by simp
    have "p ! k \<in> set p" using k by simp
    moreover have "is_copy_button (p ! k)" using CopyButton by simp
    ultimately have "list_ex is_copy_button p" unfolding list_ex_iff by blast
    then have "appended_upto L p (Suc k) = ?A" by (simp add: appended_upto_def)
    then show ?thesis using IH nc tk dk CopyButton by simp
  next
    case (OtherNode t)
    then have nc: "\<not> is_code (p ! k)" by simp
    have "appended_upto L p (Suc k) = ?A"
      using tk OtherNode by (simp add: appended_upto_def attached_def first_code_snoc split: option.splits)
    then show ?thesis using IH nc tk dk OtherNode by simp
  qed
qed

lemma highlight_pre_char: "highlight_pre L p = map (hl_child L) p @ attached L p"
  using visit_prefix [of "length p" p L]
  by (simp add: highlight_pre_def code_positions_def appended_upto_def attached_def)

lemma first_code_map: "first_code (map (hl_child L) p) = map_option (highlightElement L) (first_code p)"
  by (induction p rule: first_code.induct) simp_all

lemma first_code_None: "first_code p = None \<Longrightarrow> map (hl_child L) p = p"
  by (induction p rule: first_code.induct) simp_all

lemma attached_not_code: "map (hl_child L) (attached L' p) = attached L' p"
  by (simp add: attached_def split: option.splits)

lemma attached_again: "attached L (map (hl_child L) p @ attached L p) = []"
  by (auto simp: attached_def first_code_map split: option.splits)

lemma highlight_pre_twice:
  "highlight_pre L (highlight_pre L p) = map (hl_child L) (highlight_pre L p)"
  by (simp add: highlight_pre_char attached_again)

lemma has_button_count: "list_ex is_copy_button p \<longleftrightarrow> 0 < copy_buttons p"
  by (induction p) (simp_all add: copy_buttons_def)

lemma copy_buttons_map [simp]: "copy_buttons (map (hl_child L) p) = copy_buttons p"
proof -
  have "is_copy_button \<circ> hl_child L = is_copy_button" by (rule ext) simp
  then show ?thesis by (simp add: copy_buttons_def filter_map)
qed

lemma copy_buttons_append: "copy_buttons (p @ q) = copy_buttons p + copy_buttons q"
  by (simp add: copy_buttons_def)

lemma copy_buttons_pass: "copy_buttons p \<le> 1 \<Longrightarrow> copy_buttons (highlight_pre L p) \<le> 1"
proof -
  assume le: "copy_buttons p \<le> 1"
  have "copy_buttons (highlight_pre L p) = copy_buttons p + copy_buttons (attached L p)"
    by (simp add: highlight_pre_char copy_buttons_append)
  moreover have "copy_buttons (attached L p) = (if 0 < copy_buttons p \<or> first_code p = None then 0 else 1)"
    by (auto simp: attached_def has_button_count copy_buttons_def split: option.splits)
  ultimately show ?thesis using le by (simp split: if_splits)
qed

lemma calls_hl_child: "calls_of (hl_child L x) = map Suc (calls_of x)"
  by (cases x) simp_all

lemma calls_pass:
  "concat (map calls_of (highlight_pre L p)) = map Suc (concat (map calls_of p))"
proof -
  have "concat (map calls_of (attached L p)) = []"
    by (auto simp: attached_def split: option.splits)
  moreover have "concat (map calls_of (map (hl_child L) p)) = map Suc (concat (map calls_of p))"
    by (induction p) (simp_all add: calls_hl_child)
  ultimately show ?thesis by (simp add: highlight_pre_char)
qed

lemma highlight_calls_pass:
  "highlight_calls (highlightCodeBlocks L t) = map Suc (highlight_calls t)"
  by (simp add: highlight_calls_def highlightCodeBlocks_def calls_pass map_concat comp_def)

lemma shown_twice:
  assumes "\<forall>c. highlightElement L (highlightElement L c) = highlightElement L c"
  shows "map shown (map (hl_child L) (highlight_pre L p)) = map shown (highlight_pre L p)"
proof -
  have one: "shown (hl_child L (hl_child L x)) = shown (hl_child L x)" for x
    using assms by (cases x) simp_all
  have "map shown (map (hl_child L) (map (hl_child L) p)) = map shown (map (hl_child L) p)"
    by (induction p) (simp_all add: one)
  then show ?thesis by (simp add: highlight_pre_char attached_not_code)
qed

text \<open>
  C3, as stated: in a second run of the pass a code region already processed is skipped,
  so that highlighting is applied exactly once. It is not skipped: on a rendered message
  with one code block, \<^verbatim>\<open>hljs.highlightElement\<close> has been called once on the code
  element after one run and twice after two runs.
\<close>

theorem double_highlight_counterexample:
  "highlight_calls (highlightCodeBlocks plain_platform js_block) = [1] \<and>
   highlight_calls (highlightCodeBlocks plain_platform (highlightCodeBlocks plain_platform js_block)) = [2]"
  by (simp add: highlight_calls_pass) (simp add: highlight_calls_def js_block_def)

text \<open>
  C3, amended: a second run of \<open>highlightCodeBlocks\<close> appends nothing; it only calls the
  highlighter again on every code element. If every \<^verbatim>\<open>pre\<close> element has at most one
  copy button before, so it has after one run and after two. The result shown after two
  runs is the one shown after one run whenever the highlighter leaves an element it has
  highlighted unchanged.
\<close>

theorem finalization_twice:
  "pres (highlightCodeBlocks L (highlightCodeBlocks L t)) =
     map (map (hl_child L)) (pres (highlightCodeBlocks L t)) \<and>
   (at_most_one_button t \<longrightarrow>
      at_most_one_button (highlightCodeBlocks L t) \<and>
      at_most_one_button (highlightCodeBlocks L (highlightCodeBlocks L t))) \<and>
   ((\<forall>c. highlightElement L (highlightElement L c) = highlightElement L c) \<longrightarrow>
      map (map shown) (pres (highlightCodeBlocks L (highlightCodeBlocks L t))) =
      map (map shown) (pres (highlightCodeBlocks L t)))"
proof (intro conjI impI)
  show "pres (highlightCodeBlocks L (highlightCodeBlocks L t)) =
          map (map (hl_child L)) (pres (highlightCodeBlocks L t))"
    by (simp add: highlightCodeBlocks_def highlight_pre_twice)
next
  assume "at_most_one_button t"
  then show "at_most_one_button (highlightCodeBlocks L t)"
    unfolding at_most_one_button_def highlightCodeBlocks_def list_all_iff
    using copy_buttons_pass by auto
  then show "at_most_one_button (highlightCodeBlocks L (highlightCodeBlocks L t))"
    unfolding at_most_one_button_def highlightCodeBlocks_def list_all_iff
    using copy_buttons_pass by auto
next
  assume idem: "\<forall>c. highlightElement L (highlightElement L c) = highlightElement L c"
  have eq: "map shown (highlight_pre L (highlight_pre L p)) = map shown (highlight_pre L p)" for p
    using shown_twice [OF idem, of p] by (simp add: highlight_pre_twice)
  show "map (map shown) (pres (highlightCodeBlocks L (highlightCodeBlocks L t))) =
      map (map shown) (pres (highlightCodeBlocks L t))"
    by (simp add: highlightCodeBlocks_def comp_def eq)
qed

theorem finalization_twice_witness:
  "at_most_one_button js_block \<and>
   (\<forall>c. highlightElement plain_platform (highlightElement plain_platform c) = highlightElement plain_platform c) \<and>
   at_most_one_button (highlightCodeBlocks plain_platform (highlightCodeBlocks plain_platform js_block)) \<and>
   map (map shown) (pres (highlightCodeBlocks plain_platform (highlightCodeBlocks plain_platform js_block))) =
   map (map shown) (pres (highlightCodeBlocks plain_platform js_block))"
proof -
  have h1: "at_most_one_button js_block"
    by (simp add: at_most_one_button_def js_block_def copy_buttons_def)
  have h2: "\<forall>c. highlightElement plain_platform (highlightElement plain_platform c) = highlightElement plain_platform c"
    by (simp add: plain_platform_def)
  show ?thesis
    using h1 h2 finalization_twice [of plain_platform js_block] by blast
qed

section \<open>Records cut between two chunks\<close>

lemma run_append:
  "run p (a @ b) = (case run p a of None \<Rightarrow> None | Some q \<Rightarrow> run q b)"
  by (induction a arbitrary: p) (simp_all split: option.splits)

lemma run_done:
  "run (MDone v, st) b = Some q \<Longrightarrow> list_all json_ws b \<and> fst q = MDone v"
proof (induction b arbitrary: st)
  case Nil
  then show ?case by auto
next
  case (Cons c b)
  then show ?case by (auto simp: done_step_def split: if_splits)
qed

lemma num_step_top:
  "num_step n t [] c = Some q \<Longrightarrow> (\<exists>n' t'. q = (MNum n' t', [])) \<or> q = (MDone (JNum t), [])"
  by (cases n) (auto simp: num_finish_def done_step_def split: if_splits)

lemma run_number_top:
  "run (MNum n t, []) b = Some q \<Longrightarrow> finish q = Some v \<Longrightarrow> \<exists>t'. v = JNum t'"
proof (induction b arbitrary: n t)
  case Nil
  then show ?case by (auto split: if_splits)
next
  case (Cons c b)
  from Cons.prems(1) obtain q' where q': "num_step n t [] c = Some q'" "run q' b = Some q"
    by (auto split: option.splits)
  from num_step_top [OF q'(1)] show ?case
  proof
    assume "\<exists>n' t'. q' = (MNum n' t', [])"
    then show ?thesis using Cons.IH q'(2) Cons.prems(2) by blast
  next
    assume "q' = (MDone (JNum t), [])"
    then have "fst q = MDone (JNum t)" using run_done q'(2) by blast
    then show ?thesis using Cons.prems(2) by (cases q) auto
  qed
qed

lemma finish_Some:
  "finish q = Some v \<Longrightarrow> (\<exists>st. q = (MDone v, st)) \<or> (\<exists>n t. q = (MNum n t, []))"
  by (cases q; cases "fst q") (auto split: if_splits)

text \<open>A text that parses to an object has no proper prefix that parses, white space at the end apart.\<close>

lemma prefix_of_object_fails:
  assumes "JSON_parse (a @ b) = Some (JObj ms)" and "\<not> list_all json_ws b"
  shows "JSON_parse a = None"
proof (rule ccontr)
  assume "JSON_parse a \<noteq> None"
  then obtain qa v where qa: "run (MValue, []) a = Some qa" "finish qa = Some v"
    by (auto simp: JSON_parse_def split: option.splits)
  from assms(1) qa(1) obtain q where q: "run qa b = Some q" "finish q = Some (JObj ms)"
    by (auto simp: JSON_parse_def run_append split: option.splits)
  from finish_Some [OF qa(2)] show False
  proof
    assume "\<exists>st. qa = (MDone v, st)"
    then show False using run_done q(1) assms(2) by blast
  next
    assume "\<exists>n t. qa = (MNum n t, [])"
    then show False using run_number_top q by blast
  qed
qed

lemma outside_push_value [simp]: "outside (push_value v st)"
  by (cases "(v, st)" rule: push_value.cases) simp_all

lemma lits_ok_push_value [simp]: "lits_ok (push_value v st)"
  by (cases "(v, st)" rule: push_value.cases) simp_all

lemma start_value_cases:
  "start_value st c = Some q \<Longrightarrow>
     c \<noteq> 92 \<and> c \<noteq> 100 \<and> c \<noteq> 68 \<and> lits_ok q \<and> (if c = 34 then in_plain_string q else outside q)"
  by (auto simp: start_value_def js_def lit_ok_def split: if_splits)

lemma after_step_cases:
  "after_step st c = Some q \<Longrightarrow> c \<noteq> 92 \<and> c \<noteq> 34 \<and> c \<noteq> 97 \<and> outside q \<and> lits_ok q"
  by (cases "(st, c)" rule: after_step.cases) (auto simp: json_ws_def split: if_splits)

lemma done_step_cases:
  "done_step v c = Some q \<Longrightarrow> c \<noteq> 92 \<and> c \<noteq> 34 \<and> c \<noteq> 97 \<and> outside q \<and> lits_ok q"
  by (auto simp: done_step_def json_ws_def split: if_splits)

lemma num_step_cases:
  "num_step n t st c = Some q \<Longrightarrow> c \<noteq> 92 \<and> c \<noteq> 34 \<and> c \<noteq> 97 \<and> outside q \<and> lits_ok q"
  by (cases n)
     (auto simp: num_finish_def is_digit_def dest: after_step_cases done_step_cases
           split: if_splits list.splits)

lemma step_outside:
  assumes "outside p" and "step p c = Some q"
  shows "c \<noteq> 92 \<and> (if c = 34 then in_plain_string q else outside q)"
proof (cases p)
  case (Pair m st)
  show ?thesis
  proof (cases m)
    case MValue
    then show ?thesis using assms Pair start_value_cases [of st c q] by (auto simp: json_ws_def split: if_splits)
  next
    case MValueOrEnd
    then show ?thesis using assms Pair start_value_cases [of st c q]
      by (auto simp: json_ws_def split: if_splits list.splits frame.splits)
  next
    case MKeyOrEnd
    then show ?thesis using assms Pair
      by (auto simp: json_ws_def split: if_splits list.splits frame.splits)
  next
    case MKey
    then show ?thesis using assms Pair by (auto simp: json_ws_def split: if_splits)
  next
    case MColon
    then show ?thesis using assms Pair by (auto simp: json_ws_def split: if_splits)
  next
    case MAfter
    then show ?thesis using assms Pair after_step_cases [of st c q] by auto
  next
    case (MDone v)
    then show ?thesis using assms Pair done_step_cases [of v c q] by auto
  next
    case (MLit r v)
    then show ?thesis using assms Pair
      by (auto simp: lit_ok_def split: list.splits if_splits)
  next
    case (MNum n t)
    then show ?thesis using assms Pair num_step_cases [of n t st c q] by auto
  qed (use assms Pair in auto)
qed

lemma step_plain:
  assumes "in_plain_string p" and "step p c = Some q" and "c \<noteq> 92"
  shows "if c = 34 then outside q else in_plain_string q"
  using assms
  by (cases p; cases "fst p")
     (auto simp: close_string_def split: if_splits list.splits frame.splits)

lemma step_lits_ok:
  assumes "lits_ok p" and "step p c = Some q"
  shows "lits_ok q"
proof (cases p)
  case (Pair m st)
  show ?thesis
  proof (cases m)
    case MValue
    then show ?thesis using assms Pair start_value_cases [of st c q] by (auto split: if_splits)
  next
    case MValueOrEnd
    then show ?thesis using assms Pair start_value_cases [of st c q]
      by (auto split: if_splits list.splits frame.splits)
  next
    case MAfter
    then show ?thesis using assms Pair after_step_cases [of st c q] by auto
  next
    case (MDone v)
    then show ?thesis using assms Pair done_step_cases [of v c q] by auto
  next
    case (MLit r v)
    then show ?thesis using assms Pair
      by (auto simp: lit_ok_def split: list.splits if_splits)
  next
    case (MNum n t)
    then show ?thesis using assms Pair num_step_cases [of n t st c q] by auto
  qed (use assms Pair in \<open>auto simp: close_string_def split: if_splits list.splits frame.splits option.splits\<close>)
qed

lemma run_lits_ok: "lits_ok p \<Longrightarrow> run p s = Some q \<Longrightarrow> lits_ok q"
  by (induction s arbitrary: p) (auto split: option.splits dest: step_lits_ok)

lemma step_opposite:
  assumes "opposite p q" and "step p c = Some p'" and "step q c = Some q'"
  shows "opposite p' q'"
proof -
  have c: "c \<noteq> 92" using assms step_outside unfolding opposite_def by blast
  show ?thesis
    using assms step_outside [of p c p'] step_outside [of q c q']
      step_plain [OF _ _ c, of p p'] step_plain [OF _ _ c, of q q']
    unfolding opposite_def by (auto split: if_splits)
qed

lemma run_opposite:
  "opposite p q \<Longrightarrow> run p s = Some p' \<Longrightarrow> run q s = Some q' \<Longrightarrow> opposite p' q'"
proof (induction s arbitrary: p q)
  case Nil
  then show ?case by simp
next
  case (Cons c s)
  from Cons.prems obtain p1 q1 where
    "step p c = Some p1" "run p1 s = Some p'" "step q c = Some q1" "run q1 s = Some q'"
    by (auto split: option.splits)
  then show ?case using Cons.IH [of p1 q1] step_opposite [OF Cons.prems(1)] by blast
qed

lemma finish_outside: "finish q = Some v \<Longrightarrow> outside q \<and> \<not> in_plain_string q"
  using finish_Some [of q v] by auto

lemma not_both_accept:
  assumes "opposite p q" and "run p s = Some p'" and "run q s = Some q'"
  shows "finish p' = None \<or> finish q' = None"
proof (rule ccontr)
  assume "\<not> (finish p' = None \<or> finish q' = None)"
  then obtain v w where "finish p' = Some v" "finish q' = Some w" by auto
  then show False
    using run_opposite [OF assms] finish_outside unfolding opposite_def by blast
qed

lemma run_stays_in_string:
  "in_plain_string p \<Longrightarrow> \<forall>c\<in>set s. c \<noteq> 34 \<and> c \<noteq> 92 \<Longrightarrow> run p s = Some q \<Longrightarrow> in_plain_string q"
proof (induction s arbitrary: p)
  case Nil
  then show ?case by simp
next
  case (Cons c s)
  from Cons.prems(3) obtain p1 where p1: "step p c = Some p1" "run p1 s = Some q"
    by (auto split: option.splits)
  have "in_plain_string p1" using step_plain [OF Cons.prems(1) p1(1)] Cons.prems(2) by simp
  then show ?case using Cons.IH [of p1] Cons.prems(2) p1(2) by simp
qed

lemma step_t:
  assumes "lits_ok p" and "step p 116 = Some q"
  shows "in_plain_string q \<or> (\<exists>v st. q = (MLit (js ''rue'') v, st))"
proof (cases p)
  case (Pair m st)
  show ?thesis
  proof (cases m)
    case MAfter
    then show ?thesis using assms Pair
      by (cases "(st, 116::nat)" rule: after_step.cases) (auto simp: json_ws_def split: if_splits)
  next
    case (MNum n t)
    then show ?thesis using assms Pair
      by (cases n; cases st; cases "hd st")
         (auto simp: num_finish_def done_step_def json_ws_def is_digit_def split: if_splits)
  next
    case (MLit r v)
    then show ?thesis using assms Pair by (auto simp: lit_ok_def split: list.splits if_splits)
  qed (use assms Pair in \<open>auto simp: json_ws_def start_value_def done_step_def escape_char_def
         hexval_def close_string_def split: if_splits list.splits frame.splits option.splits\<close>)
qed

lemma run_data_prefix:
  assumes "lits_ok p" and "run p (js ''data: '') = Some q"
  shows "in_plain_string q"
proof -
  from assms(2) obtain p1 p2 p3 where
    steps: "step p 100 = Some p1" "step p1 97 = Some p2" "step p2 116 = Some p3"
      and rest: "run p3 [97, 58, 32] = Some q"
    by (auto simp: js_def split: option.splits)
  have ok: "lits_ok p2" using assms(1) steps step_lits_ok by blast
  from step_t [OF ok steps(3)] show ?thesis
  proof
    assume "in_plain_string p3"
    then show ?thesis using run_stays_in_string [of p3 "[97, 58, 32]" q] rest by simp
  next
    assume "\<exists>v st. p3 = (MLit (js ''rue'') v, st)"
    then show ?thesis using rest by (auto simp: js_def)
  qed
qed

lemma trim_decomp:
  "\<exists>l r. s = l @ trim s @ r \<and> list_all isWhiteSpace l \<and> list_all isWhiteSpace r"
proof -
  let ?d = "dropWhile isWhiteSpace s"
  have s: "s = takeWhile isWhiteSpace s @ ?d" by simp
  have "rev (takeWhile isWhiteSpace (rev ?d) @ dropWhile isWhiteSpace (rev ?d)) = ?d"
    by (simp only: takeWhile_dropWhile_id rev_rev_ident)
  then have "rev (dropWhile isWhiteSpace (rev ?d)) @ rev (takeWhile isWhiteSpace (rev ?d)) = ?d"
    by (simp only: rev_append)
  then have d: "?d = trim s @ rev (takeWhile isWhiteSpace (rev ?d))"
    by (simp only: trim_def)
  have l: "list_all isWhiteSpace (takeWhile isWhiteSpace s)"
    by (auto simp: list_all_iff dest: set_takeWhileD)
  have r: "list_all isWhiteSpace (rev (takeWhile isWhiteSpace (rev ?d)))"
    by (auto simp: list_all_iff dest: set_takeWhileD)
  have "s = takeWhile isWhiteSpace s @ trim s @ rev (takeWhile isWhiteSpace (rev ?d))"
    using s d by metis
  then show ?thesis using l r by blast
qed

lemma step_ws_start:
  "isWhiteSpace c \<Longrightarrow> step (MValue, []) c = None \<or> step (MValue, []) c = Some (MValue, [])"
  unfolding isWhiteSpace_def by (auto simp: start_value_def)

lemma run_ws_start:
  "list_all isWhiteSpace l \<Longrightarrow> run (MValue, []) l = None \<or> run (MValue, []) l = Some (MValue, [])"
proof (induction l)
  case Nil
  show ?case by simp
next
  case (Cons c l)
  then have "isWhiteSpace c" "list_all isWhiteSpace l" by simp_all
  then show ?case using step_ws_start [of c] Cons.IH by (auto simp del: step.simps)
qed

lemma run_None_append: "run p a = None \<Longrightarrow> run p (a @ b) = None"
  by (simp add: run_append)

lemma prefix_not_done:
  assumes "JSON_parse (a @ b) \<noteq> None"
  shows "trim a \<noteq> js ''[DONE]''"
proof
  assume t: "trim a = js ''[DONE]''"
  obtain l r where a: "a = l @ trim a @ r" and l: "list_all isWhiteSpace l"
    using trim_decomp [of a] by blast
  have bracket: "run (MValue, []) (js ''[DONE]'' @ r @ b) = None"
    by (simp add: js_def json_ws_def start_value_def)
  have "run (MValue, []) (l @ js ''[DONE]'' @ r @ b) = None"
    using run_ws_start [OF l] bracket by (auto simp: run_append)
  moreover have "a @ b = l @ js ''[DONE]'' @ r @ b" using a t by simp
  ultimately show False using assms by (simp add: JSON_parse_def)
qed

lemma suffix_after_data_fails:
  assumes "JSON_parse (a @ js ''data: '' @ S) \<noteq> None"
  shows "JSON_parse S = None \<and> trim S \<noteq> js ''[DONE]''"
proof -
  from assms obtain pa B q where
    pa: "run (MValue, []) a = Some pa" and B: "run pa (js ''data: '') = Some B"
    and q: "run B S = Some q" and fin: "finish q \<noteq> None"
    by (auto simp: JSON_parse_def run_append split: option.splits)
  have "lits_ok pa" using run_lits_ok [OF _ pa] by simp
  then have inB: "in_plain_string B" using run_data_prefix B by blast
  have one: "JSON_parse S = None"
  proof (rule ccontr)
    assume "JSON_parse S \<noteq> None"
    then obtain qa where qa: "run (MValue, []) S = Some qa" "finish qa \<noteq> None"
      by (auto simp: JSON_parse_def split: option.splits)
    have "opposite B (MValue, [])" using inB by (simp add: opposite_def)
    then show False using not_both_accept [OF _ q qa(1)] fin qa(2) by blast
  qed
  have two: "trim S \<noteq> js ''[DONE]''"
  proof
    assume t: "trim S = js ''[DONE]''"
    obtain l r where S: "S = l @ trim S @ r" and l: "list_all isWhiteSpace l"
      and r: "list_all isWhiteSpace r"
      using trim_decomp [of S] by blast
    have "\<forall>c\<in>set l. c \<noteq> 34 \<and> c \<noteq> 92" using l by (auto simp: list_all_iff isWhiteSpace_def)
    moreover have "\<forall>c\<in>set r. c \<noteq> 34 \<and> c \<noteq> 92" using r by (auto simp: list_all_iff isWhiteSpace_def)
    moreover have "\<forall>c\<in>set (js ''[DONE]''). c \<noteq> 34 \<and> c \<noteq> 92" by (simp add: js_def)
    ultimately have "\<forall>c\<in>set S. c \<noteq> 34 \<and> c \<noteq> 92"
      using S t by (metis Un_iff set_append)
    then have "in_plain_string q" using run_stays_in_string [OF inB _ q] by blast
    then show False using fin finish_outside [of q] by auto
  qed
  show ?thesis using one two by simp
qed

lemma starts_data: "startsWith p (js ''data: '') \<longleftrightarrow> (\<exists>t. p = js ''data: '' @ t)"
proof
  assume a: "startsWith p (js ''data: '')"
  have len: "length (js ''data: '') = 6" by (simp add: js_def)
  have "take 6 p = js ''data: ''" using a unfolding startsWith_def len .
  then have "p = js ''data: '' @ drop 6 p" by (metis append_take_drop_id)
  then show "\<exists>t. p = js ''data: '' @ t" by blast
next
  assume "\<exists>t. p = js ''data: '' @ t"
  then obtain t where "p = js ''data: '' @ t" by blast
  then show "startsWith p (js ''data: '')" by (simp add: startsWith_def)
qed

lemma parse_d_fails: "JSON_parse (100 # s) = None"
  by (simp add: JSON_parse_def start_value_def json_ws_def)

lemma cut_cases:
  assumes "p1 @ p2 = js ''data: '' @ j" and "p1 \<noteq> []"
  shows "(\<exists>a. p1 = js ''data: '' @ a \<and> j = a @ p2) \<or>
         (\<exists>us. us \<noteq> [] \<and> p1 @ us = js ''data: '' \<and> p2 = us @ j \<and> hd us \<noteq> 100)"
proof -
  from assms(1) obtain us where
    us: "(p1 = js ''data: '' @ us \<and> us @ p2 = j) \<or> (p1 @ us = js ''data: '' \<and> p2 = us @ j)"
    by (auto simp: append_eq_append_conv2)
  show ?thesis
  proof (cases "p1 = js ''data: '' @ us \<and> us @ p2 = j")
    case True
    then show ?thesis by blast
  next
    case False
    then have B: "p1 @ us = js ''data: ''" "p2 = us @ j" using us by auto
    show ?thesis
    proof (cases "us = []")
      case True
      then show ?thesis using B by auto
    next
      case False
      obtain x p1' where p1: "p1 = x # p1'" using assms(2) by (cases p1) auto
      have "p1' @ us = [97, 116, 97, 58, 32]" using B(1) p1 by (simp add: js_def)
      then have "set us \<subseteq> {97, 116, 58, 32}"
        by (metis Un_upper2 set_append list.simps(15) empty_set insert_absorb2 insert_commute
            subset_trans subset_refl) 
      then have "hd us \<noteq> 100" using False by (cases us) auto
      then show ?thesis using B False by blast
    qed
  qed
qed

lemma first_piece:
  assumes "JSON_parse j = Some (JObj ms)" and "p1 @ p2 = js ''data: '' @ j" and "p1 \<noteq> []"
    and "\<not> list_all json_ws p2"
  shows "\<not> valid_record p1 \<and> \<not> is_done p1"
  using cut_cases [OF assms(2,3)]
proof
  assume "\<exists>a. p1 = js ''data: '' @ a \<and> j = a @ p2"
  then obtain a where a: "p1 = js ''data: '' @ a" "j = a @ p2" by blast
  have "JSON_parse a = None" using prefix_of_object_fails assms(1,4) a(2) by blast
  moreover have "trim a \<noteq> js ''[DONE]''" using prefix_not_done [of a p2] assms(1) a(2) by simp
  moreover have "substring p1 6 = a" using a(1) by (simp add: substring_def js_def)
  ultimately show ?thesis by (simp add: valid_record_def is_done_def)
next
  assume "\<exists>us. us \<noteq> [] \<and> p1 @ us = js ''data: '' \<and> p2 = us @ j \<and> hd us \<noteq> 100"
  then obtain us where us: "us \<noteq> []" "p1 @ us = js ''data: ''" by blast
  have "\<not> startsWith p1 (js ''data: '')"
  proof
    assume "startsWith p1 (js ''data: '')"
    then obtain t where "p1 = js ''data: '' @ t" using starts_data by blast
    then have "js ''data: '' @ t @ us = js ''data: ''" using us(2) by simp
    then show False using us(1) by simp
  qed
  then show ?thesis by (simp add: valid_record_def is_done_def)
qed

lemma second_piece:
  assumes "JSON_parse j \<noteq> None" and "p1 @ p2 = js ''data: '' @ j" and "p1 \<noteq> []"
  shows "\<not> valid_record p2 \<and> \<not> is_done p2"
  using cut_cases [OF assms(2,3)]
proof
  assume "\<exists>a. p1 = js ''data: '' @ a \<and> j = a @ p2"
  then obtain a where a: "j = a @ p2" by blast
  show ?thesis
  proof (cases "startsWith p2 (js ''data: '')")
    case True
    then obtain S where S: "p2 = js ''data: '' @ S" using starts_data by blast
    have "JSON_parse S = None \<and> trim S \<noteq> js ''[DONE]''"
      using suffix_after_data_fails [of a S] assms(1) a S by simp
    moreover have "substring p2 6 = S" using S by (simp add: substring_def js_def)
    ultimately show ?thesis by (simp add: valid_record_def is_done_def)
  next
    case False
    then show ?thesis by (simp add: valid_record_def is_done_def)
  qed
next
  assume "\<exists>us. us \<noteq> [] \<and> p1 @ us = js ''data: '' \<and> p2 = us @ j \<and> hd us \<noteq> 100"
  then obtain us where us: "us \<noteq> []" "p2 = us @ j" "hd us \<noteq> 100" by blast
  have "\<not> startsWith p2 (js ''data: '')"
  proof
    assume "startsWith p2 (js ''data: '')"
    then obtain t where "p2 = js ''data: '' @ t" using starts_data by blast
    then have "hd p2 = 100" by (simp add: js_def)
    then show False using us by simp
  qed
  then show ?thesis by (simp add: valid_record_def is_done_def)
qed

lemma until_done_Nil: "until_done [] = []"
  by (simp add: until_done_def)

lemma until_done_Cons: "until_done (l # ls) = (if is_done l then [] else l # until_done ls)"
  by (simp add: until_done_def)

lemma until_done_snoc_text:
  assumes "fragment_of L x = []"
  shows "concat (map (fragment_of L) (until_done (ls @ [x]))) =
         concat (map (fragment_of L) (until_done ls))"
proof (induction ls)
  case Nil
  show ?case using assms by (simp add: until_done_Nil until_done_Cons)
next
  case (Cons l ls)
  then show ?case by (simp add: until_done_Cons)
qed

text \<open>
  C10, amended: every chunk is split on its own. Let the payload of a record parse to a
  JSON object, and let the text of the record be cut in two pieces, the first not empty
  and the second with a character that is not JSON white space; in any sequence of chunks,
  answered with a success status that has a body, let the first piece be the last line of
  one chunk and the second the first line of the next. Then neither piece is a record that
  parses (each fails the prefix check or \<^verbatim>\<open>JSON.parse\<close>), neither is the sentinel,
  no error is raised, and what is committed is what the other lines of the chunks give:
  the fragment of the record is lost.
\<close>

theorem record_cut_between_chunks:
  assumes "JSON_parse j = Some (JObj ms)"
    and "p1 @ p2 = js ''data: '' @ j" and "p1 \<noteq> []" and "\<not> list_all json_ws p2"
    and "split_chunk c1 = ls1 @ [p1]" and "split_chunk c2 = p2 # ls2"
    and "response_ok status" and "\<not> null_body_status status"
  shows "\<not> valid_record p1 \<and> \<not> is_done p1 \<and> \<not> valid_record p2 \<and> \<not> is_done p2 \<and>
         returned (streamAIResponse L (Response status (map Chunk (cs0 @ [c1, c2] @ cs3))) s) \<and>
         messages (state_of (streamAIResponse L (Response status (map Chunk (cs0 @ [c1, c2] @ cs3))) s)) =
           messages s @ committed (now s)
             (concat (map (fragment_of L) (lines_read cs0)) @
              concat (map (fragment_of L) (until_done ls1)) @
              concat (map (fragment_of L) (until_done ls2)) @
              concat (map (fragment_of L) (lines_read cs3)))"
proof -
  have one: "\<not> valid_record p1 \<and> \<not> is_done p1"
    using first_piece [OF assms(1,2,3,4)] .
  have two: "\<not> valid_record p2 \<and> \<not> is_done p2"
    using second_piece [OF _ assms(2,3)] assms(1) by simp
  have f1: "fragment_of L p1 = []" and f2: "fragment_of L p2 = []"
    using one two fragment_of_invalid by blast+
  have pair: "concat (map (fragment_of L) (lines_read [c1, c2])) =
          concat (map (fragment_of L) (until_done ls1)) @ concat (map (fragment_of L) (until_done ls2))"
    using two f2 until_done_snoc_text [OF f1, of ls1]
    by (simp add: lines_read_def assms(5,6) until_done_Cons)
  have "lines_read (cs0 @ [c1, c2] @ cs3) = lines_read cs0 @ lines_read [c1, c2] @ lines_read cs3"
    by (simp add: lines_read_def)
  then have "concat (map (fragment_of L) (lines_read (cs0 @ [c1, c2] @ cs3))) =
          concat (map (fragment_of L) (lines_read cs0)) @
          concat (map (fragment_of L) (until_done ls1)) @
          concat (map (fragment_of L) (until_done ls2)) @
          concat (map (fragment_of L) (lines_read cs3))"
    using pair by simp
  then show ?thesis
    using one two streamAIResponse_log [OF assms(7,8), of L "cs0 @ [c1, c2] @ cs3" s] by simp
qed

text \<open>
  C10, as stated: whenever the text of one record is cut between two consecutive chunks,
  neither piece is parsed as a complete record and the fragment of the record is lost.
  Not when the cut falls in white space at the end of the record: the record of the
  fragment \<open>x\<close> followed by a space is a complete record; cut before the space, its
  first piece ends the first chunk, is itself a complete record, and \<open>x\<close> is committed.
\<close>

theorem record_cut_counterexample:
  "valid_record (delta_record (js ''x'') @ [32]) \<and>
   split_chunk (delta_record (js ''x'')) = [delta_record (js ''x'')] \<and>
   split_chunk [32, 10, 10] = [[32], []] \<and>
   valid_record (delta_record (js ''x'')) \<and>
   map content (messages (state_of (streamAIResponse plain_platform
      (Response 200 [Chunk (delta_record (js ''x'')), Chunk [32, 10, 10]]) blank_page))) = [js ''x'']"
proof -
  have ok: "response_ok 200" by (simp add: response_ok_def)
  have body: "\<not> null_body_status 200" by (simp add: null_body_status_def)
  have v1: "valid_record (delta_record (js ''x'') @ [32])"
    by (simp add: eval_defs)
  have v2: "valid_record (delta_record (js ''x''))"
    by (simp add: eval_defs)
  have s1: "split_chunk (delta_record (js ''x'')) = [delta_record (js ''x'')]"
    by (simp add: eval_defs)
  have s2: "split_chunk [32, 10, 10] = [[32], []]"
    by (simp add: split_chunk_def)
  have "concat (map (fragment_of plain_platform) (lines_read [delta_record (js ''x''), [32, 10, 10]])) = js ''x''"
    by (simp add: eval_defs)
  then have "map content (messages (state_of (streamAIResponse plain_platform
      (Response 200 [Chunk (delta_record (js ''x'')), Chunk [32, 10, 10]]) blank_page))) = [js ''x'']"
    using streamAIResponse_log [OF ok body, of plain_platform "[delta_record (js ''x''), [32, 10, 10]]" blank_page]
    by (simp add: committed_def blank_page_def js_def)
  then show ?thesis using v1 v2 s1 s2 by blast
qed

theorem record_cut_between_chunks_witness:
  "JSON_parse (js ''{\"choices\":[{\"delta\":{\"content\":\"world\"}}]}'') =
     Some (JObj [(js ''choices'', JArr [JObj [(js ''delta'', JObj [(js ''content'', JStr (js ''world''))])]])]) \<and>
   js ''data: {\"choices\":[{\"del'' @ js ''ta\":{\"content\":\"world\"}}]}'' =
     js ''data: '' @ js ''{\"choices\":[{\"delta\":{\"content\":\"world\"}}]}'' \<and>
   js ''data: {\"choices\":[{\"del'' \<noteq> [] \<and>
   \<not> list_all json_ws (js ''ta\":{\"content\":\"world\"}}]}'') \<and>
   split_chunk (js ''data: {\"choices\":[{\"del'') = [] @ [js ''data: {\"choices\":[{\"del''] \<and>
   split_chunk (js ''ta\":{\"content\":\"world\"}}]}'' @ [10, 10]) =
     js ''ta\":{\"content\":\"world\"}}]}'' # [[]] \<and>
   response_ok 200 \<and> \<not> null_body_status 200 \<and>
   map content (messages (state_of (streamAIResponse plain_platform
      (Response 200
        [Chunk (frame_records [delta_record (js ''Hello '')]),
         Chunk (js ''data: {\"choices\":[{\"del''),
         Chunk (js ''ta\":{\"content\":\"world\"}}]}'' @ [10, 10]),
         Chunk (frame_records [delta_record (js ''again''), done_record])])
      blank_page))) = [js ''Hello again'']"
proof -
  let ?j = "js ''{\"choices\":[{\"delta\":{\"content\":\"world\"}}]}''"
  let ?p1 = "js ''data: {\"choices\":[{\"del''"
  let ?p2 = "js ''ta\":{\"content\":\"world\"}}]}''"
  let ?c0 = "frame_records [delta_record (js ''Hello '')]"
  let ?c2 = "?p2 @ [10, 10]"
  let ?c3 = "frame_records [delta_record (js ''again''), done_record]"
  let ?out = "streamAIResponse plain_platform
     (Response 200 (map Chunk ([?c0] @ [?p1, ?c2] @ [?c3]))) blank_page"
  have h1: "JSON_parse ?j =
     Some (JObj [(js ''choices'', JArr [JObj [(js ''delta'', JObj [(js ''content'', JStr (js ''world''))])]])])"
    by (simp add: eval_defs)
  have h2: "?p1 @ ?p2 = js ''data: '' @ ?j" by (simp add: js_def)
  have h3: "?p1 \<noteq> []" by (simp add: js_def)
  have h4: "\<not> list_all json_ws ?p2" by (simp add: js_def json_ws_def)
  have h5: "split_chunk ?p1 = [] @ [?p1]" by (simp add: eval_defs)
  have h6: "split_chunk ?c2 = ?p2 # [[]]" by (simp add: eval_defs)
  have h7: "response_ok 200" by (simp add: response_ok_def)
  have h8: "\<not> null_body_status 200" by (simp add: null_body_status_def)
  note t = record_cut_between_chunks [OF h1 h2 h3 h4 h5 h6 h7 h8,
      of plain_platform "[?c0]" "[?c3]" blank_page]
  have frags: "concat (map (fragment_of plain_platform) (lines_read [?c0])) @
               concat (map (fragment_of plain_platform) (until_done [])) @
               concat (map (fragment_of plain_platform) (until_done [[]])) @
               concat (map (fragment_of plain_platform) (lines_read [?c3])) = js ''Hello again''"
    by (simp add: eval_defs)
  have "messages (state_of ?out) =
          messages blank_page @ committed (now blank_page)
            (concat (map (fragment_of plain_platform) (lines_read [?c0])) @
             concat (map (fragment_of plain_platform) (until_done [])) @
             concat (map (fragment_of plain_platform) (until_done [[]])) @
             concat (map (fragment_of plain_platform) (lines_read [?c3])))"
    using t by blast
  then have "messages (state_of ?out) = messages blank_page @ committed (now blank_page) (js ''Hello again'')"
    by (simp only: frags)
  then have m: "map content (messages (state_of ?out)) = [js ''Hello again'']"
    by (simp add: committed_def blank_page_def js_def)
  show ?thesis using h1 h2 h3 h4 h5 h6 h7 h8 m by simp
qed

end
